theory Spec2Isabelle
  imports Complex_Main "HOL-Library.Sublist"
begin

section \<open>JavaScript strings and objects\<close>

text \<open>
  A JavaScript string is a sequence of UTF-16 code units. A code unit is modelled as a
  natural number (every JavaScript string is a list of numbers below 65536), so that
  \<open>length\<close> counts what \<^verbatim>\<open>.length\<close> counts. \<open>js\<close> turns an ASCII literal into its
  code units.
\<close>

type_synonym jsstring = "nat list"

definition js :: "string \<Rightarrow> jsstring" where
  "js s = map of_char s"

text \<open>
  \<^verbatim>\<open>{ [key: string]: string }\<close>: the own properties of a plain object, in the order
  \<^verbatim>\<open>Object.keys\<close> lists them. For keys that are not array indices (a file path is not
  one) that is the order in which the properties were added, and the model keeps that
  order for every key.
\<close>

type_synonym filestate = "(jsstring \<times> jsstring) list"

definition keys :: "filestate \<Rightarrow> jsstring list" where
  "keys obj = map fst obj"

text \<open>
  \<^verbatim>\<open>obj[path]\<close> on a plain object: the own property when there is one, else what
  \<^verbatim>\<open>Object.prototype\<close> has under that name (a function or object, the same one for
  every plain object), else \<^verbatim>\<open>undefined\<close>.
\<close>

datatype propval = Undefined | Str jsstring | Inherited jsstring

definition objectPrototypeNames :: "jsstring list" where
  "objectPrototypeNames = map js
     [''constructor'', ''__proto__'', ''hasOwnProperty'', ''isPrototypeOf'',
      ''propertyIsEnumerable'', ''toLocaleString'', ''toString'', ''valueOf'',
      ''__defineGetter__'', ''__defineSetter__'', ''__lookupGetter__'',
      ''__lookupSetter__'']"

definition getProp :: "filestate \<Rightarrow> jsstring \<Rightarrow> propval" where
  "getProp obj k =
     (case map_of obj k of
        Some v \<Rightarrow> Str v
      | None \<Rightarrow> if k \<in> set objectPrototypeNames then Inherited k else Undefined)"

text \<open>JavaScript truthiness of such a value: \<^verbatim>\<open>undefined\<close> and \<^verbatim>\<open>""\<close> are falsy.\<close>

definition truthy :: "propval \<Rightarrow> bool" where
  "truthy v = (case v of Undefined \<Rightarrow> False | Str s \<Rightarrow> s \<noteq> [] | Inherited _ \<Rightarrow> True)"

section \<open>Change-set reconciler: \<^verbatim>\<open>detectFileChanges\<close>\<close>

datatype change_status = New | Updated | Deleted

record FileChange =
  path :: jsstring
  status :: change_status
  previousContent :: "propval option"

text \<open>
  \<^verbatim>\<open>new Set([...Object.keys(previousFiles), ...Object.keys(newFiles)])\<close> iterates
  in insertion order: each key at its first occurrence.
\<close>

definition allPaths :: "filestate \<Rightarrow> filestate \<Rightarrow> jsstring list" where
  "allPaths previousFiles newFiles = rev (remdups (rev (keys previousFiles @ keys newFiles)))"

text \<open>The body of the loop: the change pushed for one path, if any.\<close>

definition classifyPath :: "filestate \<Rightarrow> filestate \<Rightarrow> jsstring \<Rightarrow> FileChange option" where
  "classifyPath previousFiles newFiles p =
     (let prevContent = getProp previousFiles p;
          newContent = getProp newFiles p
      in if \<not> truthy prevContent \<and> truthy newContent then
           Some \<lparr>path = p, status = New, previousContent = None\<rparr>
         else if truthy prevContent \<and> \<not> truthy newContent then
           Some \<lparr>path = p, status = Deleted, previousContent = Some prevContent\<rparr>
         else if prevContent \<noteq> newContent then
           Some \<lparr>path = p, status = Updated, previousContent = Some prevContent\<rparr>
         else None)"

fun collectChanges ::
  "filestate \<Rightarrow> filestate \<Rightarrow> jsstring list \<Rightarrow> FileChange list \<Rightarrow> FileChange list" where
  "collectChanges previousFiles newFiles [] changes = changes"
| "collectChanges previousFiles newFiles (p # ps) changes =
     collectChanges previousFiles newFiles ps
       (case classifyPath previousFiles newFiles p of
          None \<Rightarrow> changes
        | Some c \<Rightarrow> changes @ [c])"

definition detectFileChanges :: "filestate \<Rightarrow> filestate \<Rightarrow> FileChange list" where
  "detectFileChanges previousFiles newFiles =
     collectChanges previousFiles newFiles (allPaths previousFiles newFiles) []"

section \<open>Upstream client: \<^verbatim>\<open>fetchWithRetry\<close>\<close>

text \<open>A thrown \<^verbatim>\<open>Error\<close>, with its message.\<close>

datatype error = Error jsstring

fun message :: "error \<Rightarrow> jsstring" where
  "message (Error m) = m"

text \<open>
  What the handler reads of a provider response: the status, the body stream (\<^verbatim>\<open>null\<close>
  is \<open>None\<close>; the chunks as the decoder returns them, and whether a read rejects after
  the last of them) and the outcome of \<^verbatim>\<open>response.json()\<close>.
\<close>

datatype body_stream = BodyStream "jsstring list" "error option"

record provider_data =
  content :: "jsstring list"
  stop_reason :: "jsstring option"

record response =
  http_status :: nat
  body :: "body_stream option"
  json :: "error + provider_data"

definition ok :: "response \<Rightarrow> bool" where
  "ok r \<longleftrightarrow> 200 \<le> http_status r \<and> http_status r \<le> 299"

text \<open>\<^verbatim>\<open>fetch\<close> resolves with a response or rejects.\<close>

datatype fetch_result = Responds response | Rejects error

text \<open>The effects of the wrapper, in order: calls of \<^verbatim>\<open>fetch\<close> and timers it waits for.\<close>

datatype io = DoFetch | Sleep rat

definition io_then :: "io list \<Rightarrow> io list \<times> 'a \<Rightarrow> io list \<times> 'a" where
  "io_then es r = (es @ fst r, snd r)"

text \<open>The decimal digits of a number, as a template literal prints it.\<close>

fun decimal :: "nat \<Rightarrow> jsstring" where
  "decimal n = (if n < 10 then [48 + n] else decimal (n div 10) @ [48 + n mod 10])"

declare decimal.simps [simp del]

text \<open>
  The loop of \<^verbatim>\<open>fetchWithRetry\<close>, from \<open>attempt\<close> on. \<open>fetch n\<close> is the outcome of the
  \<open>n\<close>-th call. The backoff is a rational: \<^verbatim>\<open>backoff *= 1.5\<close> is exact in floating
  point for the delays that three attempts reach.
\<close>

function fetchAttempts ::
  "(nat \<Rightarrow> fetch_result) \<Rightarrow> nat \<Rightarrow> nat \<Rightarrow> rat \<Rightarrow> io list \<times> (error + response)" where
  "fetchAttempts fetch retries attempt backoff =
     (if attempt \<le> retries then
        (case fetch attempt of
           Responds response \<Rightarrow>
             if http_status response = 529 \<and> attempt < retries then
               io_then [DoFetch, Sleep backoff]
                 (fetchAttempts fetch retries (attempt + 1) (backoff * 2))
             else if \<not> ok response then
               (if attempt = retries then
                  ([DoFetch], Inl (Error (js ''Status: '' @ decimal (http_status response))))
                else
                  io_then [DoFetch, Sleep backoff]
                    (fetchAttempts fetch retries (attempt + 1) (backoff * (3 / 2))))
             else ([DoFetch], Inr response)
         | Rejects err \<Rightarrow>
             if attempt = retries then ([DoFetch], Inl err)
             else
               io_then [DoFetch, Sleep backoff]
                 (fetchAttempts fetch retries (attempt + 1) (backoff * (3 / 2))))
      else ([], Inl (Error (js ''Max retries reached''))))"
  by pat_completeness auto
termination
  by (relation "measure (\<lambda>(fetch, retries, attempt, backoff). Suc retries - attempt)") auto

declare fetchAttempts.simps [simp del]

text \<open>The defaults of the source: \<^verbatim>\<open>retries = 3\<close>, \<^verbatim>\<open>backoff = 1000\<close>.\<close>

definition fetchWithRetry :: "(nat \<Rightarrow> fetch_result) \<Rightarrow> io list \<times> (error + response)" where
  "fetchWithRetry fetch = fetchAttempts fetch 3 1 1000"

text \<open>A provider that answers every call with status 529.\<close>

definition overloadedResponse :: response where
  "overloadedResponse = \<lparr>http_status = 529, body = None, json = Inl (Error (js ''overloaded''))\<rparr>"

definition always529 :: "nat \<Rightarrow> fetch_result" where
  "always529 n = Responds overloadedResponse"

section \<open>Character-reveal scheduler: \<^verbatim>\<open>MultiFileStreamingDisplay\<close>\<close>

text \<open>
  \<^verbatim>\<open>{...prev, [name]: value}\<close>: an own property keeps its place, a new one is added
  at the end.
\<close>

fun setProp :: "('k \<times> 'v) list \<Rightarrow> 'k \<Rightarrow> 'v \<Rightarrow> ('k \<times> 'v) list" where
  "setProp [] k v = [(k, v)]"
| "setProp ((k', v') # obj) k v =
     (if k' = k then (k, v) # obj else (k', v') # setProp obj k v)"

text \<open>
  The state of the component: the React state variables, the two refs the effect uses
  (the pending timeout with the values its callback closes over, and
  \<^verbatim>\<open>hasNavigatedRef\<close>), and the number of calls of \<^verbatim>\<open>onAllFilesComplete\<close> so far.
\<close>

record reveal_state =
  displayedFiles :: filestate
  currentFileIndex :: nat
  currentCharIndex :: nat
  isComplete :: bool
  hasNavigated :: bool
  streamingTimer :: "(jsstring \<times> jsstring \<times> nat) option"
  completions :: nat

text \<open>
  \<^verbatim>\<open>fileNames[currentFileIndex]\<close> (\<^verbatim>\<open>undefined\<close> out of range, which as a property
  key reads \<^verbatim>\<open>"undefined"\<close>) and \<^verbatim>\<open>files[currentFileName] || ""\<close>.
\<close>

definition currentFileName :: "filestate \<Rightarrow> nat \<Rightarrow> jsstring" where
  "currentFileName files i = (if i < length (keys files) then keys files ! i else js ''undefined'')"

definition currentFileContent :: "filestate \<Rightarrow> nat \<Rightarrow> jsstring" where
  "currentFileContent files i =
     (case map_of files (currentFileName files i) of Some v \<Rightarrow> v | None \<Rightarrow> [])"

text \<open>
  The effect, run after a render and run again after every render its own state updates
  cause, until it sets a timeout or changes nothing. Each run starts with the cleanup of
  the previous one, which clears the timeout.
\<close>

function runEffect :: "filestate \<Rightarrow> reveal_state \<Rightarrow> reveal_state" where
  "runEffect files st =
     (if length (keys files) = 0 then st\<lparr>streamingTimer := None\<rparr>
      else if currentCharIndex st < length (currentFileContent files (currentFileIndex st)) then
        st\<lparr>streamingTimer :=
             Some (currentFileName files (currentFileIndex st),
                   currentFileContent files (currentFileIndex st),
                   currentCharIndex st)\<rparr>
      else if currentFileIndex st < length (keys files) - 1 then
        runEffect files
          (st\<lparr>currentFileIndex := currentFileIndex st + 1, currentCharIndex := 0,
               streamingTimer := None\<rparr>)
      else if \<not> isComplete st \<and> \<not> hasNavigated st then
        runEffect files
          (st\<lparr>isComplete := True, hasNavigated := True, streamingTimer := None,
               completions := completions st + 1\<rparr>)
      else st\<lparr>streamingTimer := None\<rparr>)"
  by pat_completeness auto
termination
  by (relation "measure (\<lambda>(files, st).
        (length (keys files) - currentFileIndex st) + (if isComplete st then 0 else 1))") auto

declare runEffect.simps [simp del]

text \<open>
  One firing of the timeout: the callback reveals one more character of the file it was
  set for and advances the cursor; the render that follows runs the effect. Without a
  pending timeout nothing fires.
\<close>

definition tick :: "filestate \<Rightarrow> reveal_state \<Rightarrow> reveal_state" where
  "tick files st =
     (case streamingTimer st of
        None \<Rightarrow> st
      | Some (fileName, fileContent, charIndex) \<Rightarrow>
          runEffect files
            (st\<lparr>displayedFiles := setProp (displayedFiles st) fileName
                                      (take (charIndex + 1) fileContent),
                 currentCharIndex := currentCharIndex st + 1,
                 streamingTimer := None\<rparr>))"

text \<open>Mount, or a new file set: the reset effect, then the first run of the effect.\<close>

definition mounted :: "filestate \<Rightarrow> reveal_state" where
  "mounted files =
     runEffect files
       \<lparr>displayedFiles = [], currentFileIndex = 0, currentCharIndex = 0, isComplete = False,
        hasNavigated = False, streamingTimer = None, completions = 0\<rparr>"

definition afterTicks :: "filestate \<Rightarrow> nat \<Rightarrow> reveal_state" where
  "afterTicks files k = (tick files ^^ k) (mounted files)"

text \<open>The total length of the contents, and the characters shown so far.\<close>

definition totalLength :: "filestate \<Rightarrow> nat" where
  "totalLength files = sum_list (map (\<lambda>kv. length (snd kv)) files)"

definition revealed :: "reveal_state \<Rightarrow> nat" where
  "revealed st = totalLength (displayedFiles st)"

text \<open>
  For the proofs: the number of characters in the files before the \<open>i\<close>-th, what the
  display holds when the cursor is at character \<open>c\<close> of file \<open>i\<close> (the non-empty files
  before it in full, and the first \<open>c\<close> characters of file \<open>i\<close>), and the three parts of
  the invariant: the cursor stands after \<open>k\<close> characters, a timeout is pending, the
  session is complete.
\<close>

definition offset :: "filestate \<Rightarrow> nat \<Rightarrow> nat" where
  "offset files i = totalLength (take i files)"

definition shown :: "filestate \<Rightarrow> nat \<Rightarrow> nat \<Rightarrow> filestate" where
  "shown files i c =
     filter (\<lambda>kv. snd kv \<noteq> []) (take i files) @
     (if 0 < c then [(fst (files ! i), take c (snd (files ! i)))] else [])"

definition positioned :: "filestate \<Rightarrow> nat \<Rightarrow> reveal_state \<Rightarrow> bool" where
  "positioned files k st \<longleftrightarrow>
     currentFileIndex st < length files \<and>
     currentCharIndex st \<le> length (snd (files ! currentFileIndex st)) \<and>
     offset files (currentFileIndex st) + currentCharIndex st = k \<and>
     displayedFiles st = shown files (currentFileIndex st) (currentCharIndex st)"

definition revealing :: "filestate \<Rightarrow> reveal_state \<Rightarrow> bool" where
  "revealing files st \<longleftrightarrow>
     currentCharIndex st < length (snd (files ! currentFileIndex st)) \<and>
     streamingTimer st =
       Some (fst (files ! currentFileIndex st), snd (files ! currentFileIndex st),
             currentCharIndex st) \<and>
     completions st = 0 \<and> \<not> isComplete st \<and> \<not> hasNavigated st"

definition allComplete :: "filestate \<Rightarrow> nat \<Rightarrow> reveal_state \<Rightarrow> bool" where
  "allComplete files k st \<longleftrightarrow>
     k = totalLength files \<and> streamingTimer st = None \<and> completions st = 1 \<and> isComplete st"

text \<open>A session of two files, three characters in all.\<close>

definition twoFiles :: filestate where
  "twoFiles = [(js ''/a.js'', js ''xy''), (js ''/b.js'', js ''z'')]"

section \<open>Client stream consumers\<close>



datatype UploadedFile =
  UploadedFile (uf_id: nat) (uf_name: jsstring) (uf_type: jsstring) (uf_size: nat)
    (uf_content: jsstring) (uf_lastModified: nat)



subsection \<open>The workspace page: \<^verbatim>\<open>handleChatSubmit\<close>\<close>




subsection \<open>The generation page: \<^verbatim>\<open>handleStreamingGenerate\<close>\<close>









section \<open>The runtime's JSON\<close>

text \<open>
  \<^verbatim>\<open>JSON.parse\<close> and \<^verbatim>\<open>JSON.stringify\<close> are built into the runtime. They are modelled
  here from the JSON grammar (ECMA-404) and from ECMA-262: a parsed value is a tree, a
  number keeps its lexeme, an object keeps its members in the order of their first
  occurrence with the last value of a repeated key.
\<close>

datatype json =
  JNull | JBool bool | JNumber jsstring | JString jsstring
| JArray "json list" | JObject "(jsstring \<times> json) list"

text \<open>JSON whitespace: space, tab, line feed, carriage return.\<close>

definition isJsonSpace :: "nat \<Rightarrow> bool" where
  "isJsonSpace c \<longleftrightarrow> c = 32 \<or> c = 9 \<or> c = 10 \<or> c = 13"

definition skipSpace :: "jsstring \<Rightarrow> jsstring" where
  "skipSpace s = dropWhile isJsonSpace s"

definition isDigit :: "nat \<Rightarrow> bool" where
  "isDigit c \<longleftrightarrow> 48 \<le> c \<and> c \<le> 57"

definition hexValue :: "nat \<Rightarrow> nat option" where
  "hexValue c =
     (if 48 \<le> c \<and> c \<le> 57 then Some (c - 48)
      else if 97 \<le> c \<and> c \<le> 102 then Some (c - 87)
      else if 65 \<le> c \<and> c \<le> 70 then Some (c - 55)
      else None)"

definition hex4 :: "nat \<Rightarrow> nat \<Rightarrow> nat \<Rightarrow> nat \<Rightarrow> nat option" where
  "hex4 a b c d =
     (case (hexValue a, hexValue b, hexValue c, hexValue d) of
        (Some x, Some y, Some z, Some w) \<Rightarrow> Some (4096 * x + 256 * y + 16 * z + w)
      | _ \<Rightarrow> None)"

definition simpleEscape :: "nat \<Rightarrow> nat option" where
  "simpleEscape e =
     (if e = 34 then Some 34 else if e = 92 then Some 92 else if e = 47 then Some 47
      else if e = 98 then Some 8 else if e = 102 then Some 12 else if e = 110 then Some 10
      else if e = 114 then Some 13 else if e = 116 then Some 9 else None)"

text \<open>
  The characters of a string literal after its opening quote, up to the closing quote:
  the decoded string and what follows the literal. Control characters must be escaped.
\<close>

definition consChar :: "nat \<Rightarrow> (jsstring \<times> jsstring) option \<Rightarrow> (jsstring \<times> jsstring) option" where
  "consChar c r = map_option (\<lambda>(s, rest). (c # s, rest)) r"

fun parseChars :: "jsstring \<Rightarrow> (jsstring \<times> jsstring) option" where
  "parseChars [] = None"
| "parseChars (c # cs) =
     (if c = 34 then Some ([], cs)
      else if c = 92 then
        (case cs of
           [] \<Rightarrow> None
         | e # cs1 \<Rightarrow>
             if e = 117 then
               (case cs1 of
                  h1 # h2 # h3 # h4 # cs2 \<Rightarrow>
                    (case hex4 h1 h2 h3 h4 of
                       Some u \<Rightarrow> consChar u (parseChars cs2)
                     | None \<Rightarrow> None)
                | _ \<Rightarrow> None)
             else
               (case simpleEscape e of
                  Some u \<Rightarrow> consChar u (parseChars cs1)
                | None \<Rightarrow> None))
      else if c < 32 then None
      else consChar c (parseChars cs))"

text \<open>
  A number: an optional minus, \<^verbatim>\<open>0\<close> or digits, an optional fraction, an optional
  exponent. The result is the lexeme and what follows it.
\<close>

definition digitsOf :: "jsstring \<Rightarrow> jsstring \<times> jsstring" where
  "digitsOf s = (takeWhile isDigit s, dropWhile isDigit s)"

definition parseNumber :: "jsstring \<Rightarrow> (jsstring \<times> jsstring) option" where
  "parseNumber s =
     (let (sign, s1) = (case s of c # r \<Rightarrow> if c = 45 then ([45], r) else ([], s) | [] \<Rightarrow> ([], s));
          (whole, s2) = (case s1 of c # r \<Rightarrow> if c = 48 then ([48], r) else digitsOf s1 | [] \<Rightarrow> ([], s1));
          (frac, s3) = (case s2 of
                          c # r \<Rightarrow> if c = 46 then (c # fst (digitsOf r), snd (digitsOf r)) else ([], s2)
                        | [] \<Rightarrow> ([], s2));
          (expo, s4) = (case s3 of
                          c # r \<Rightarrow>
                            if c = 101 \<or> c = 69 then
                              (case r of
                                 g # r' \<Rightarrow>
                                   if g = 43 \<or> g = 45 then (c # g # fst (digitsOf r'), snd (digitsOf r'))
                                   else (c # fst (digitsOf r), snd (digitsOf r))
                               | [] \<Rightarrow> ([c], r))
                            else ([], s3)
                        | [] \<Rightarrow> ([], s3))
      in if whole = [] \<or> frac = [46] \<or> (expo \<noteq> [] \<and> \<not> isDigit (last expo)) then None
         else Some (sign @ whole @ frac @ expo, s4))"

text \<open>
  A value, the members of an object after its brace, the elements of an array after its
  bracket. The first argument bounds the depth of the recursion; \<open>JSON_parse\<close> gives it
  the length of the text, which no parse exceeds (\<open>JSON_parse_fuel\<close>).
\<close>

fun parseValue :: "nat \<Rightarrow> jsstring \<Rightarrow> (json \<times> jsstring) option"
  and parseMembers :: "nat \<Rightarrow> jsstring \<Rightarrow> ((jsstring \<times> json) list \<times> jsstring) option"
  and parseElements :: "nat \<Rightarrow> jsstring \<Rightarrow> (json list \<times> jsstring) option" where
  "parseValue 0 s = None"
| "parseValue (Suc n) s =
     (case s of
        [] \<Rightarrow> None
      | c # cs \<Rightarrow>
          if c = 123 then
            (case skipSpace cs of
               [] \<Rightarrow> None
             | d # r \<Rightarrow>
                 if d = 125 then Some (JObject [], r)
                 else map_option (\<lambda>(ms, rest). (JObject (fold (\<lambda>(k, v) obj. setProp obj k v) ms []), rest))
                        (parseMembers n (d # r)))
          else if c = 91 then
            (case skipSpace cs of
               [] \<Rightarrow> None
             | d # r \<Rightarrow>
                 if d = 93 then Some (JArray [], r)
                 else map_option (\<lambda>(vs, rest). (JArray vs, rest)) (parseElements n (d # r)))
          else if c = 34 then map_option (\<lambda>(str, rest). (JString str, rest)) (parseChars cs)
          else if prefix (js ''true'') s then Some (JBool True, drop 4 s)
          else if prefix (js ''false'') s then Some (JBool False, drop 5 s)
          else if prefix (js ''null'') s then Some (JNull, drop 4 s)
          else map_option (\<lambda>(lexeme, rest). (JNumber lexeme, rest)) (parseNumber s))"
| "parseMembers 0 s = None"
| "parseMembers (Suc n) s =
     (case s of
        [] \<Rightarrow> None
      | c # cs \<Rightarrow>
          if c \<noteq> 34 then None
          else
            (case parseChars cs of
               None \<Rightarrow> None
             | Some (k, r1) \<Rightarrow>
                 (case skipSpace r1 of
                    [] \<Rightarrow> None
                  | d # r2 \<Rightarrow>
                      if d \<noteq> 58 then None
                      else
                        (case parseValue n (skipSpace r2) of
                           None \<Rightarrow> None
                         | Some (v, r3) \<Rightarrow>
                             (case skipSpace r3 of
                                [] \<Rightarrow> None
                              | e # r4 \<Rightarrow>
                                  if e = 125 then Some ([(k, v)], r4)
                                  else if e = 44 then
                                    map_option (\<lambda>(ms, rest). ((k, v) # ms, rest))
                                      (parseMembers n (skipSpace r4))
                                  else None)))))"
| "parseElements 0 s = None"
| "parseElements (Suc n) s =
     (case parseValue n (skipSpace s) of
        None \<Rightarrow> None
      | Some (v, r1) \<Rightarrow>
          (case skipSpace r1 of
             [] \<Rightarrow> None
           | e # r2 \<Rightarrow>
               if e = 93 then Some ([v], r2)
               else if e = 44 then map_option (\<lambda>(vs, rest). (v # vs, rest)) (parseElements n r2)
               else None))"

text \<open>\<^verbatim>\<open>JSON.parse(text)\<close>: \<open>None\<close> when it throws a \<^verbatim>\<open>SyntaxError\<close>.\<close>

definition JSON_parse :: "jsstring \<Rightarrow> json option" where
  "JSON_parse s =
     (case parseValue (Suc (length s)) (skipSpace s) of
        None \<Rightarrow> None
      | Some (v, rest) \<Rightarrow> if skipSpace rest = [] then Some v else None)"

text \<open>
  \<^verbatim>\<open>JSON.stringify(obj)\<close> for an object whose values are strings: the members in key
  order, each as two quoted strings around a colon, separated by commas, without
  whitespace. Quoting escapes the quote, the backslash, the control characters and
  surrogates that are not part of a pair.
\<close>

definition hexDigit :: "nat \<Rightarrow> nat" where
  "hexDigit v = (if v < 10 then 48 + v else 87 + v)"

definition unicodeEscape :: "nat \<Rightarrow> jsstring" where
  "unicodeEscape u =
     [92, 117, hexDigit (u div 4096 mod 16), hexDigit (u div 256 mod 16),
      hexDigit (u div 16 mod 16), hexDigit (u mod 16)]"

definition isLeadSurrogate :: "nat \<Rightarrow> bool" where
  "isLeadSurrogate c \<longleftrightarrow> 55296 \<le> c \<and> c \<le> 56319"

definition isTrailSurrogate :: "nat \<Rightarrow> bool" where
  "isTrailSurrogate c \<longleftrightarrow> 56320 \<le> c \<and> c \<le> 57343"

definition escapeUnit :: "nat \<Rightarrow> jsstring" where
  "escapeUnit c =
     (if c = 8 then [92, 98] else if c = 9 then [92, 116] else if c = 10 then [92, 110]
      else if c = 12 then [92, 102] else if c = 13 then [92, 114]
      else if c = 34 then [92, 34] else if c = 92 then [92, 92]
      else if c < 32 \<or> isLeadSurrogate c \<or> isTrailSurrogate c then unicodeEscape c
      else [c])"

fun quoteChars :: "jsstring \<Rightarrow> jsstring" where
  "quoteChars [] = []"
| "quoteChars [c] = escapeUnit c"
| "quoteChars (c # d # cs) =
     (if isLeadSurrogate c \<and> isTrailSurrogate d then c # d # quoteChars cs
      else escapeUnit c @ quoteChars (d # cs))"

definition quoteJSONString :: "jsstring \<Rightarrow> jsstring" where
  "quoteJSONString s = 34 # quoteChars s @ [34]"

fun joinWith :: "'a list \<Rightarrow> 'a list list \<Rightarrow> 'a list" where
  "joinWith sep [] = []"
| "joinWith sep [x] = x"
| "joinWith sep (x # y # ys) = x @ sep @ joinWith sep (y # ys)"

definition JSON_stringify :: "filestate \<Rightarrow> jsstring" where
  "JSON_stringify obj =
     123 # joinWith [44] (map (\<lambda>(k, v). quoteJSONString k @ 58 # quoteJSONString v) obj) @ [125]"

section \<open>Extractor: \<^verbatim>\<open>extractAndParseJSON\<close>\<close>

text \<open>
  Two things the engine decides and this model takes as given: the text \<^verbatim>\<open>String(n)\<close>
  prints for the number a lexeme denotes (floating point), and the message of the
  \<^verbatim>\<open>SyntaxError\<close> that \<^verbatim>\<open>JSON.parse\<close> throws on a text.
\<close>

record runtime =
  numberToString :: "jsstring \<Rightarrow> jsstring"
  syntaxErrorMessage :: "jsstring \<Rightarrow> jsstring"

text \<open>\<^verbatim>\<open>String(value)\<close> on a parsed value; an array joins its elements with commas.\<close>

fun String_of :: "runtime \<Rightarrow> json \<Rightarrow> jsstring"
  and elementString :: "runtime \<Rightarrow> json \<Rightarrow> jsstring" where
  "String_of rt JNull = js ''null''"
| "String_of rt (JBool b) = (if b then js ''true'' else js ''false'')"
| "String_of rt (JNumber lexeme) = numberToString rt lexeme"
| "String_of rt (JString s) = s"
| "String_of rt (JArray vs) = joinWith [44] (map (elementString rt) vs)"
| "String_of rt (JObject ms) = js ''[object Object]''"
| "elementString rt v = (if v = JNull then [] else String_of rt v)"

text \<open>
  What \<^verbatim>\<open>\s\<close> matches and \<^verbatim>\<open>trim\<close> removes: the white space and line terminator
  code units of ECMAScript.
\<close>

definition isSpace :: "nat \<Rightarrow> bool" where
  "isSpace c \<longleftrightarrow>
     c \<in> {9, 10, 11, 12, 13, 32, 160, 5760, 8232, 8233, 8239, 8287, 12288, 65279} \<or>
     (8192 \<le> c \<and> c \<le> 8202)"

definition trim :: "jsstring \<Rightarrow> jsstring" where
  "trim s = rev (dropWhile isSpace (rev (dropWhile isSpace s)))"

definition trimEnd :: "jsstring \<Rightarrow> jsstring" where
  "trimEnd s = rev (dropWhile isSpace (rev s))"

text \<open>\<^verbatim>\<open>text.indexOf(pat)\<close>: the first position where \<open>pat\<close> occurs, \<open>None\<close> for \<^verbatim>\<open>-1\<close>.\<close>

fun indexOf :: "jsstring \<Rightarrow> jsstring \<Rightarrow> nat option" where
  "indexOf pat [] = (if pat = [] then Some 0 else None)"
| "indexOf pat (c # cs) =
     (if prefix pat (c # cs) then Some 0 else map_option Suc (indexOf pat cs))"

definition fence :: jsstring where
  "fence = js ''```''"

definition fenceJson :: jsstring where
  "fenceJson = js ''```json''"

text \<open>
  \<^verbatim>\<open>responseText.match(/```json\s*([\s\S]*?)\s*```/)\<close>, the captured group. The match
  starts at the first \<^verbatim>\<open>```json\<close> (a later one would itself close the first). The
  greedy \<^verbatim>\<open>\s*\<close> takes all white space after it, the lazy group stops at the first
  position from which white space and \<^verbatim>\<open>```\<close> follow: the group is the text up to the
  next \<^verbatim>\<open>```\<close> without the white space before it. Without a later \<^verbatim>\<open>```\<close> there is
  no match.
\<close>

definition codeBlockMatch :: "jsstring \<Rightarrow> jsstring option" where
  "codeBlockMatch responseText =
     (case indexOf fenceJson responseText of
        None \<Rightarrow> None
      | Some i \<Rightarrow>
          let rest = dropWhile isSpace (drop (i + 7) responseText)
          in (case indexOf fence rest of
                None \<Rightarrow> None
              | Some j \<Rightarrow> Some (trimEnd (take j rest))))"

text \<open>
  The brace-matching loop from index \<open>i\<close> on, over the rest of the text: the value of
  \<^verbatim>\<open>endIndex\<close> at the \<^verbatim>\<open>break\<close>, or \<open>None\<close> when the loop runs to the end of the text
  (\<^verbatim>\<open>endIndex\<close> stays \<^verbatim>\<open>-1\<close>).
\<close>

fun scanBraces :: "jsstring \<Rightarrow> nat \<Rightarrow> int \<Rightarrow> bool \<Rightarrow> bool \<Rightarrow> nat option" where
  "scanBraces [] i braceCount inString escaped = None"
| "scanBraces (c # cs) i braceCount inString escaped =
     (if \<not> inString then
        (if c = 123 then scanBraces cs (i + 1) (braceCount + 1) inString escaped
         else if c = 125 then
           (if braceCount - 1 = 0 then Some (i + 1)
            else scanBraces cs (i + 1) (braceCount - 1) inString escaped)
         else if c = 34 then scanBraces cs (i + 1) braceCount True escaped
         else scanBraces cs (i + 1) braceCount inString escaped)
      else
        (if escaped then scanBraces cs (i + 1) braceCount inString False
         else if c = 92 then scanBraces cs (i + 1) braceCount inString True
         else if c = 34 then scanBraces cs (i + 1) braceCount False escaped
         else scanBraces cs (i + 1) braceCount inString escaped))"

definition braceCandidate :: "jsstring \<Rightarrow> jsstring" where
  "braceCandidate responseText =
     (case indexOf [123] responseText of
        None \<Rightarrow> responseText
      | Some startIndex \<Rightarrow>
          (case scanBraces (drop startIndex responseText) startIndex 0 False False of
             None \<Rightarrow> responseText
           | Some endIndex \<Rightarrow>
               if endIndex > startIndex
               then take (endIndex - startIndex) (drop startIndex responseText)
               else responseText))"

text \<open>
  \<^verbatim>\<open>jsonText.replace(/```json|```|\n```/g, "")\<close>: at each position the first
  alternative that matches is removed.
\<close>

fun stripFences :: "jsstring \<Rightarrow> jsstring" where
  "stripFences [] = []"
| "stripFences (c # cs) =
     (if prefix fenceJson (c # cs) then stripFences (drop 6 cs)
      else if prefix fence (c # cs) then stripFences (drop 2 cs)
      else if prefix (10 # fence) (c # cs) then stripFences (drop 3 cs)
      else c # stripFences cs)"

text \<open>
  \<^verbatim>\<open>Object.entries(parsed)\<close> (an array has its indices as keys), and the assignment
  \<^verbatim>\<open>files[key] = value\<close> of the loop: on a plain object the key \<^verbatim>\<open>__proto__\<close> is the
  accessor of \<^verbatim>\<open>Object.prototype\<close>, which ignores a string, so no property is added.
\<close>

definition entries :: "json \<Rightarrow> (jsstring \<times> json) list" where
  "entries v =
     (case v of
        JObject ms \<Rightarrow> ms
      | JArray vs \<Rightarrow> zip (map decimal [0 ..< length vs]) vs
      | _ \<Rightarrow> [])"

definition assignFile :: "runtime \<Rightarrow> jsstring \<times> json \<Rightarrow> filestate \<Rightarrow> filestate" where
  "assignFile rt kv files =
     (let fileContent = (case snd kv of JString s \<Rightarrow> s | v \<Rightarrow> String_of rt v)
      in if fst kv = js ''__proto__'' then files else setProp files (fst kv) fileContent)"

text \<open>\<^verbatim>\<open>typeof parsed === "object" && parsed !== null\<close>: objects and arrays.\<close>

definition isObject :: "json \<Rightarrow> bool" where
  "isObject v = (case v of JObject _ \<Rightarrow> True | JArray _ \<Rightarrow> True | _ \<Rightarrow> False)"

text \<open>The text handed to \<^verbatim>\<open>JSON.parse\<close>.\<close>

definition candidateText :: "jsstring \<Rightarrow> jsstring" where
  "candidateText responseText =
     trim (stripFences
       (case codeBlockMatch responseText of
          Some inner \<Rightarrow> inner
        | None \<Rightarrow> braceCandidate responseText))"

text \<open>Every error thrown inside the \<^verbatim>\<open>try\<close> is rethrown with this prefix.\<close>

definition parseFailure :: "jsstring \<Rightarrow> error" where
  "parseFailure reason = Error (js ''Failed to parse generated code: '' @ reason)"

definition extractAndParseJSON :: "runtime \<Rightarrow> jsstring \<Rightarrow> error + filestate" where
  "extractAndParseJSON rt responseText =
     (let jsonText = candidateText responseText
      in case JSON_parse jsonText of
           None \<Rightarrow> Inl (parseFailure (syntaxErrorMessage rt jsonText))
         | Some parsed \<Rightarrow>
             if \<not> isObject parsed then Inl (parseFailure (js ''Response is not a valid object''))
             else
               let files = fold (assignFile rt) (entries parsed) []
               in if length (map fst files) = 0 then Inl (parseFailure (js ''No files generated''))
                  else Inr files)"

declare parseChars.simps [simp del] scanBraces.simps [simp del]

declare parseValue.simps [simp del] parseMembers.simps [simp del] parseElements.simps [simp del]

text \<open>
  For the proofs: the text of one member and of all members of a serialised object, and
  the members \<^verbatim>\<open>JSON.parse\<close> gives back for them.
\<close>

definition memberText :: "jsstring \<times> jsstring \<Rightarrow> jsstring" where
  "memberText kv = quoteJSONString (fst kv) @ 58 # quoteJSONString (snd kv)"

definition membersText :: "filestate \<Rightarrow> jsstring" where
  "membersText obj = joinWith [44] (map memberText obj)"

definition parsedMembers :: "filestate \<Rightarrow> (jsstring \<times> json) list" where
  "parsedMembers obj = map (\<lambda>kv. (fst kv, JString (snd kv))) obj"

text \<open>
  A runtime for the evaluations below, whose texts hold no numbers; the answer of the
  spec's scenario for a fenced block between prose, in its parts.
\<close>

definition referenceRuntime :: runtime where
  "referenceRuntime =
     \<lparr>numberToString = (\<lambda>lexeme. lexeme),
      syntaxErrorMessage = (\<lambda>jsonText. js ''Unexpected end of JSON input'')\<rparr>"

definition oneFile :: filestate where
  "oneFile = [(js ''/a.js'', js ''1'')]"

definition proseBefore :: jsstring where
  "proseBefore = js ''Sure! Here'' @ [39] @ js ''s your code:'' @ [10]"

definition proseAfter :: jsstring where
  "proseAfter = [10] @ js ''Let me know if you need changes.''"

text \<open>
  Inputs on which the extractor does not give back the state that was serialised: a file
  whose content is a code fence, a README with a fenced shell command, a state whose
  only key is \<^verbatim>\<open>__proto__\<close>, prose with braces before the object, and prose that mentions
  \<^verbatim>\<open>```json\<close> before the fenced block.
\<close>

definition readme :: filestate where
  "readme = [(js ''/README.md'', js ''```'')]"

definition installNotes :: filestate where
  "installNotes =
     [(js ''/README.md'',
       js ''Run:'' @ [10] @ js ''```bash'' @ [10] @ js ''npm install'' @ [10] @ js ''```'' @ [10])]"

definition protoState :: filestate where
  "protoState = [(js ''__proto__'', js ''x'')]"

definition bracedProse :: jsstring where
  "bracedProse = js ''Use {x}: ''"

definition fencedProse :: jsstring where
  "fencedProse = js ''Use ```json blocks. ''"

section \<open>Generate/update endpoint: \<^verbatim>\<open>POST\<close>\<close>

subsection \<open>Request, conversation documents and the store\<close>

text \<open>
  The request body after destructuring, of the type the handler declares for it
  (\<open>None\<close> for an absent field), and the documents of the \<^verbatim>\<open>Conversation\<close> model. A
  turn's prompt is \<^verbatim>\<open>prompt!\<close>, which is still \<^verbatim>\<open>undefined\<close> when the request had none.
\<close>

record request_body =
  prompt :: "jsstring option"
  existingFiles :: "filestate option"
  body_uploadedFiles :: "UploadedFile list option"
  streaming :: "bool option"
  body_userId :: "jsstring option"
  body_conversationId :: "jsstring option"
  isIterativeUpdate :: "bool option"

record ConversationTurn =
  turn_prompt :: "jsstring option"
  timestamp :: nat
  fileChanges :: "FileChange list"
  fullState :: filestate

record Conversation =
  userId :: jsstring
  initialPrompt :: "jsstring option"
  uploadedFiles :: "UploadedFile list"
  conversationTurns :: "ConversationTurn list"
  currentFiles :: filestate

text \<open>The collection, by \<^verbatim>\<open>_id\<close>.\<close>

type_synonym store = "(jsstring \<times> Conversation) list"

text \<open>
  What the handler meets outside itself: whether \<^verbatim>\<open>connectMongo\<close> rejects, the API key of
  the process environment, whether \<^verbatim>\<open>findById\<close> rejects for an id (a cast error), the
  outcome of each call of \<^verbatim>\<open>fetch\<close>, whether the write of \<^verbatim>\<open>save\<close> rejects, the \<^verbatim>\<open>_id\<close> a
  new document gets, the clock, and the engine.
\<close>

record environment =
  mongoError :: "error option"
  apiKey :: "jsstring option"
  findByIdError :: "jsstring \<Rightarrow> error option"
  provider :: "nat \<Rightarrow> fetch_result"
  saveError :: "error option"
  freshId :: jsstring
  now :: nat
  engine :: runtime

definition truthyString :: "jsstring option \<Rightarrow> bool" where
  "truthyString v = (case v of Some s \<Rightarrow> s \<noteq> [] | None \<Rightarrow> False)"

definition iterative :: "request_body \<Rightarrow> bool" where
  "iterative b = (case isIterativeUpdate b of Some i \<Rightarrow> i | None \<Rightarrow> False)"

definition userIdOf :: "request_body \<Rightarrow> jsstring" where
  "userIdOf b = (case body_userId b of Some u \<Rightarrow> u | None \<Rightarrow> js ''anonymous'')"

text \<open>
  The validation \<^verbatim>\<open>save\<close> runs first, from the schema: \<^verbatim>\<open>userId\<close>, \<^verbatim>\<open>initialPrompt\<close> and
  the prompt of every turn are required, and a required string must not be empty.
\<close>

definition validates :: "Conversation \<Rightarrow> bool" where
  "validates c \<longleftrightarrow>
     userId c \<noteq> [] \<and> truthyString (initialPrompt c) \<and>
     (\<forall>t \<in> set (conversationTurns c). truthyString (turn_prompt t))"

definition save :: "environment \<Rightarrow> store \<Rightarrow> jsstring \<Rightarrow> Conversation \<Rightarrow> error + store" where
  "save env st ident c =
     (if \<not> validates c then Inl (Error (js ''Conversation validation failed''))
      else (case saveError env of
              Some e \<Rightarrow> Inl e
            | None \<Rightarrow> Inr (setProp st ident c)))"

subsection \<open>From the response text to the persisted turn\<close>

text \<open>\<^verbatim>\<open>existingFiles || conversation?.currentFiles || {}\<close> and \<^verbatim>\<open>{...previousFiles, ...newFiles}\<close>.\<close>

definition previousFilesOf ::
  "request_body \<Rightarrow> (jsstring \<times> Conversation) option \<Rightarrow> filestate" where
  "previousFilesOf b conversation =
     (case existingFiles b of
        Some f \<Rightarrow> f
      | None \<Rightarrow> (case conversation of Some (ident, c) \<Rightarrow> currentFiles c | None \<Rightarrow> []))"

definition mergeFiles :: "filestate \<Rightarrow> filestate \<Rightarrow> filestate" where
  "mergeFiles previousFiles newFiles = fold (\<lambda>(k, v) acc. setProp acc k v) newFiles previousFiles"

text \<open>
  The block that updates or creates the conversation and saves it: the \<^verbatim>\<open>_id\<close> of the
  conversation and the store after the write, or the error \<^verbatim>\<open>save\<close> rejects with.
\<close>

definition persistTurn ::
  "environment \<Rightarrow> store \<Rightarrow> request_body \<Rightarrow> (jsstring \<times> Conversation) option \<Rightarrow>
   filestate \<Rightarrow> filestate \<Rightarrow> FileChange list \<Rightarrow> error + (jsstring \<times> store)" where
  "persistTurn env st b conversation newFiles fullFileState changes =
     (case (if iterative b then conversation else None) of
        Some (ident, c) \<Rightarrow>
          (case save env st ident
                  (c\<lparr>conversationTurns :=
                        conversationTurns c @
                          [\<lparr>turn_prompt = prompt b, timestamp = now env, fileChanges = changes,
                            fullState = fullFileState\<rparr>],
                      currentFiles := fullFileState\<rparr>) of
             Inl e \<Rightarrow> Inl e
           | Inr st' \<Rightarrow> Inr (ident, st'))
      | None \<Rightarrow>
          (case save env st (freshId env)
                  \<lparr>userId = userIdOf b,
                   initialPrompt = prompt b,
                   uploadedFiles = (case body_uploadedFiles b of Some u \<Rightarrow> u | None \<Rightarrow> []),
                   conversationTurns =
                     [\<lparr>turn_prompt = prompt b, timestamp = now env,
                       fileChanges =
                         map (\<lambda>p. \<lparr>path = p, status = New, previousContent = None\<rparr>)
                           (keys newFiles),
                       fullState = fullFileState\<rparr>],
                   currentFiles = fullFileState\<rparr> of
             Inl e \<Rightarrow> Inl e
           | Inr st' \<Rightarrow> Inr (freshId env, st')))"

record generation =
  gen_files :: filestate
  gen_fullFiles :: filestate
  gen_changedFiles :: "FileChange list"
  gen_conversationId :: jsstring

text \<open>Extraction, merge, diff and persistence, shared by both modes.\<close>

definition finishGeneration ::
  "environment \<Rightarrow> store \<Rightarrow> request_body \<Rightarrow> (jsstring \<times> Conversation) option \<Rightarrow>
   jsstring \<Rightarrow> error + (generation \<times> store)" where
  "finishGeneration env st b conversation responseText =
     (case extractAndParseJSON (engine env) responseText of
        Inl e \<Rightarrow> Inl e
      | Inr newFiles \<Rightarrow>
          let previousFiles = previousFilesOf b conversation;
              fullFileState = mergeFiles previousFiles newFiles;
              changes = detectFileChanges previousFiles newFiles
          in (case persistTurn env st b conversation newFiles fullFileState changes of
                Inl e \<Rightarrow> Inl e
              | Inr (ident, st') \<Rightarrow>
                  Inr (\<lparr>gen_files = newFiles, gen_fullFiles = fullFileState,
                        gen_changedFiles = changes, gen_conversationId = ident\<rparr>, st')))"

subsection \<open>The streaming task\<close>

text \<open>The events \<^verbatim>\<open>sendData\<close> enqueues, by type, with their payload.\<close>

datatype sse =
  StatusEvent jsstring
| ProgressEvent json
| FileEvent jsstring jsstring change_status
| CompleteEvent jsstring jsstring "FileChange list" filestate bool
| ErrorEvent jsstring

text \<open>\<^verbatim>\<open>chunk.split("\n")\<close>.\<close>

fun splitLines :: "jsstring \<Rightarrow> jsstring list" where
  "splitLines [] = [[]]"
| "splitLines (c # cs) =
     (if c = 10 then [] # splitLines cs
      else (case splitLines cs of l # ls \<Rightarrow> (c # l) # ls | [] \<Rightarrow> [[c]]))"

text \<open>
  Property access on a parsed value (\<^verbatim>\<open>undefined\<close> is \<open>None\<close>), and truthiness of a parsed
  value.
\<close>

definition member :: "json \<Rightarrow> jsstring \<Rightarrow> json option" where
  "member v k = (case v of JObject ms \<Rightarrow> map_of ms k | _ \<Rightarrow> None)"

definition truthyJson :: "runtime \<Rightarrow> json \<Rightarrow> bool" where
  "truthyJson rt v =
     (case v of
        JNull \<Rightarrow> False
      | JBool b \<Rightarrow> b
      | JNumber lexeme \<Rightarrow> numberToString rt lexeme \<noteq> js ''0''
      | JString s \<Rightarrow> s \<noteq> []
      | _ \<Rightarrow> True)"

text \<open>
  One line of a chunk: the \<^verbatim>\<open>delta.text\<close> it adds to the response, if it is a \<^verbatim>\<open>data:\<close>
  line other than \<^verbatim>\<open>[DONE]\<close> that parses to a \<^verbatim>\<open>content_block_delta\<close> with a truthy text.
  A line that does not parse, or whose value is \<^verbatim>\<open>null\<close>, throws inside the \<^verbatim>\<open>try\<close> and is
  ignored. No other frame type is looked at.
\<close>

definition deltaText :: "runtime \<Rightarrow> jsstring \<Rightarrow> json option" where
  "deltaText rt line =
     (if prefix (js ''data: '') line then
        (let payload = drop 6 line
         in if payload = js ''[DONE]'' then None
            else (case JSON_parse payload of
                    None \<Rightarrow> None
                  | Some parsed \<Rightarrow>
                      if member parsed (js ''type'') = Some (JString (js ''content_block_delta''))
                      then (case member parsed (js ''delta'') of
                              None \<Rightarrow> None
                            | Some delta \<Rightarrow>
                                (case member delta (js ''text'') of
                                   None \<Rightarrow> None
                                 | Some t \<Rightarrow> if truthyJson rt t then Some t else None))
                      else None))
      else None)"

definition readLine :: "runtime \<Rightarrow> jsstring \<Rightarrow> jsstring \<times> sse list \<Rightarrow> jsstring \<times> sse list" where
  "readLine rt line acc =
     (case deltaText rt line of
        None \<Rightarrow> acc
      | Some t \<Rightarrow> (fst acc @ String_of rt t, snd acc @ [ProgressEvent t]))"

definition readChunk :: "runtime \<Rightarrow> jsstring \<Rightarrow> jsstring \<times> sse list \<Rightarrow> jsstring \<times> sse list" where
  "readChunk rt chunk acc = fold (readLine rt) (splitLines chunk) acc"

text \<open>One \<^verbatim>\<open>file\<close> event for each entry of the new files, in key order.\<close>

definition fileEvents :: "filestate \<Rightarrow> FileChange list \<Rightarrow> sse list" where
  "fileEvents newFiles changes =
     map (\<lambda>(fileName, fileContent).
            FileEvent fileName fileContent
              (case find (\<lambda>c. path c = fileName) changes of
                 Some c \<Rightarrow> status c
               | None \<Rightarrow> New))
       newFiles"

text \<open>
  The asynchronous task of the streaming branch: the events it sends, in order, and the
  store when it ends. Every error thrown inside its \<^verbatim>\<open>try\<close> ends it with one \<^verbatim>\<open>error\<close>
  event. \<^verbatim>\<open>sendData\<close> is taken to succeed (the client stays connected).
\<close>

definition streamTask ::
  "environment \<Rightarrow> store \<Rightarrow> request_body \<Rightarrow> (jsstring \<times> Conversation) option \<Rightarrow>
   sse list \<times> store" where
  "streamTask env st b conversation =
     (let started = [StatusEvent (if iterative b then js ''Applying changes...''
                                  else js ''Starting generation...'')]
      in case snd (fetchWithRetry (provider env)) of
           Inl e \<Rightarrow> (started @ [ErrorEvent (message e)], st)
         | Inr response \<Rightarrow>
             (case body response of
                None \<Rightarrow> (started @ [ErrorEvent (js ''Empty stream body'')], st)
              | Some (BodyStream chunks readError) \<Rightarrow>
                  let readAll = fold (readChunk (engine env)) chunks ([], []);
                      fullResponse = fst readAll;
                      progress = snd readAll
                  in (case readError of
                        Some e \<Rightarrow> (started @ progress @ [ErrorEvent (message e)], st)
                      | None \<Rightarrow>
                          (case finishGeneration env st b conversation fullResponse of
                             Inl e \<Rightarrow> (started @ progress @ [ErrorEvent (message e)], st)
                           | Inr (g, st') \<Rightarrow>
                               (started @ progress @
                                fileEvents (gen_files g) (gen_changedFiles g) @
                                [CompleteEvent (gen_conversationId g) (userIdOf b)
                                   (gen_changedFiles g)
                                   (if iterative b then gen_fullFiles g else gen_files g)
                                   (iterative b)],
                                st')))))"

subsection \<open>The handler\<close>

datatype response_body =
  ErrorBody jsstring
| GeneratedBody generation jsstring bool

datatype http_response = JsonResponse nat response_body | EventStream "sse list"

definition serverError :: "error \<Rightarrow> store \<Rightarrow> http_response \<times> store" where
  "serverError e st = (JsonResponse 500 (ErrorBody (message e)), st)"

text \<open>The non-streaming branch.\<close>

definition respondOnce ::
  "environment \<Rightarrow> store \<Rightarrow> request_body \<Rightarrow> (jsstring \<times> Conversation) option \<Rightarrow>
   http_response \<times> store" where
  "respondOnce env st b conversation =
     (case snd (fetchWithRetry (provider env)) of
        Inl e \<Rightarrow> serverError e st
      | Inr response \<Rightarrow>
          (case json response of
             Inl e \<Rightarrow> serverError e st
           | Inr data \<Rightarrow>
               if stop_reason data = Some (js ''max_tokens'') then
                 serverError
                   (Error (js ''Response truncated: Increase max_tokens or simplify prompt'')) st
               else
                 (case (case content data of t # ts \<Rightarrow> t | [] \<Rightarrow> []) of
                    [] \<Rightarrow> serverError (Error (js ''No content generated by Anthropic API'')) st
                  | c # cs \<Rightarrow>
                      (case finishGeneration env st b conversation (c # cs) of
                         Inl e \<Rightarrow> serverError e st
                       | Inr (g, st') \<Rightarrow>
                           (JsonResponse 200 (GeneratedBody g (userIdOf b) (iterative b)),
                            st')))))"

text \<open>\<^verbatim>\<open>isIterativeUpdate && conversationId\<close>: the id to look up, if any.\<close>

definition requestedConversation :: "request_body \<Rightarrow> jsstring option" where
  "requestedConversation b =
     (if iterative b then
        (case body_conversationId b of
           Some ident \<Rightarrow> if ident \<noteq> [] then Some ident else None
         | None \<Rightarrow> None)
      else None)"

definition generate ::
  "environment \<Rightarrow> store \<Rightarrow> request_body \<Rightarrow> (jsstring \<times> Conversation) option \<Rightarrow>
   http_response \<times> store" where
  "generate env st b conversation =
     (if streaming b = Some True
      then (let r = streamTask env st b conversation in (EventStream (fst r), snd r))
      else respondOnce env st b conversation)"

text \<open>
  \<^verbatim>\<open>POST\<close>: the response, and the store once the request is done. The third argument is
  the outcome of \<^verbatim>\<open>request.json()\<close>. The prompt sent to the provider does not enter the
  model: the provider's answers are given by the environment.
\<close>

definition POST ::
  "environment \<Rightarrow> store \<Rightarrow> error + request_body \<Rightarrow> http_response \<times> store" where
  "POST env st request =
     (case mongoError env of
        Some e \<Rightarrow> serverError e st
      | None \<Rightarrow>
          (case request of
             Inl e \<Rightarrow> serverError e st
           | Inr b \<Rightarrow>
               if \<not> truthyString (prompt b) \<and>
                  (case body_uploadedFiles b of None \<Rightarrow> True | Some u \<Rightarrow> length u = 0)
               then (JsonResponse 400 (ErrorBody (js ''Prompt or uploaded files required'')), st)
               else if \<not> truthyString (apiKey env)
               then (JsonResponse 500 (ErrorBody (js ''Missing API key'')), st)
               else
                 (case requestedConversation b of
                    Some ident \<Rightarrow>
                      (case findByIdError env ident of
                         Some e \<Rightarrow> serverError e st
                       | None \<Rightarrow>
                           (case map_of st ident of
                              None \<Rightarrow>
                                (JsonResponse 404 (ErrorBody (js ''Conversation not found'')), st)
                            | Some c \<Rightarrow> generate env st b (Some (ident, c))))
                  | None \<Rightarrow> generate env st b None)))"

subsection \<open>Notions for the properties of the handler\<close>

text \<open>
  A terminal event is a \<^verbatim>\<open>complete\<close> or an \<^verbatim>\<open>error\<close> event. A conversation mirrors its last
  turn when \<^verbatim>\<open>currentFiles\<close> is the \<^verbatim>\<open>fullState\<close> of that turn. A document is a
  conversation with one turn appended when its turns are one new turn, or the turns of
  the stored document and one more, and \<^verbatim>\<open>currentFiles\<close> is that turn's \<^verbatim>\<open>fullState\<close>.
  \<open>known\<close>: the conversation the handler holds is the one stored under its id. \<open>serve\<close>:
  the store after a sequence of requests, each with its environment. \<open>staged\<close>: the
  stages of the streaming task before persistence succeed (the provider answers with a
  body, every read resolves, the extractor returns files).
\<close>

definition isTerminal :: "sse \<Rightarrow> bool" where
  "isTerminal ev = (case ev of CompleteEvent _ _ _ _ _ \<Rightarrow> True | ErrorEvent _ \<Rightarrow> True | _ \<Rightarrow> False)"

definition mirrors :: "Conversation \<Rightarrow> bool" where
  "mirrors c \<longleftrightarrow>
     conversationTurns c \<noteq> [] \<and> currentFiles c = fullState (last (conversationTurns c))"

definition storeMirrors :: "store \<Rightarrow> bool" where
  "storeMirrors st \<longleftrightarrow> (\<forall>entry \<in> set st. mirrors (snd entry))"

definition appendedTo :: "store \<Rightarrow> jsstring \<Rightarrow> Conversation \<Rightarrow> bool" where
  "appendedTo st ident c \<longleftrightarrow>
     (\<exists>t. (conversationTurns c = [t] \<or>
           (\<exists>c0. map_of st ident = Some c0 \<and>
                 conversationTurns c = conversationTurns c0 @ [t])) \<and>
          currentFiles c = fullState t)"

definition known :: "store \<Rightarrow> (jsstring \<times> Conversation) option \<Rightarrow> bool" where
  "known st conversation \<longleftrightarrow>
     (case conversation of None \<Rightarrow> True | Some (ident, c) \<Rightarrow> map_of st ident = Some c)"

definition serve :: "(environment \<times> (error + request_body)) list \<Rightarrow> store \<Rightarrow> store" where
  "serve requests st = fold (\<lambda>(env, request) s. snd (POST env s request)) requests st"

definition staged :: "environment \<Rightarrow> bool" where
  "staged env \<longleftrightarrow>
     (\<exists>response chunks files.
        snd (fetchWithRetry (provider env)) = Inr response \<and>
        body response = Some (BodyStream chunks None) \<and>
        extractAndParseJSON (engine env)
          (fst (fold (readChunk (engine env)) chunks ([], []))) = Inr files)"

subsection \<open>Environments, requests and answers for the evaluations\<close>

text \<open>
  The lookup of the environments below. \<^verbatim>\<open>findById\<close> first casts the id to an
  \<^verbatim>\<open>ObjectId\<close>: a string of 24 hexadecimal digits casts, and for a string that does not
  cast the query rejects with a \<^verbatim>\<open>CastError\<close>. Here every other string is taken not
  to cast (some versions of the driver also take strings of 12 characters).
\<close>

definition isObjectIdString :: "jsstring \<Rightarrow> bool" where
  "isObjectIdString ident \<longleftrightarrow> length ident = 24 \<and> list_all (\<lambda>c. hexValue c \<noteq> None) ident"

definition castError :: "jsstring \<Rightarrow> error" where
  \<open>castError ident =
     Error (js ''Cast to ObjectId failed for value "'' @ ident @
            js ''" (type string) at path "_id" for model "Conversation"'')\<close>

definition castObjectId :: "jsstring \<Rightarrow> error option" where
  "castObjectId ident = (if isObjectIdString ident then None else Some (castError ident))"

text \<open>
  An environment in which everything outside the provider works; a request without
  prompt that names a conversation that is not stored; and a request with a prompt whose
  conversation id is not an \<^verbatim>\<open>ObjectId\<close>.
\<close>

definition readyEnvironment :: environment where
  "readyEnvironment =
     \<lparr>mongoError = None, apiKey = Some (js ''sk-test''), findByIdError = castObjectId,
      provider = always529, saveError = None, freshId = js ''65a1b2c3d4e5f60718293a4b'', now = 0,
      engine = referenceRuntime\<rparr>"



text \<open>
  A provider that always gives the same answer. The \<^verbatim>\<open>data:\<close> line of a text delta and
  of the \<^verbatim>\<open>message_delta\<close> frame that reports the stop reason \<^verbatim>\<open>max_tokens\<close>, a response
  text cut off inside a string, and the streams and the answer built from them.
\<close>

definition answering :: "response \<Rightarrow> nat \<Rightarrow> fetch_result" where
  "answering r n = Responds r"

definition deltaFrame :: "jsstring \<Rightarrow> jsstring" where
  \<open>deltaFrame t =
     js ''data: {"type":"content_block_delta","index":0,"delta":{"type":"text_delta","text":'' @
     quoteJSONString t @ js ''}}''\<close>

definition stopFrame :: jsstring where
  \<open>stopFrame = js ''data: {"type":"message_delta","delta":{"stop_reason":"max_tokens"}}''\<close>

definition truncatedText :: jsstring where
  \<open>truncatedText = js ''{"/a.js": "con''\<close>

definition streamOf :: "jsstring list \<Rightarrow> response" where
  "streamOf chunks =
     \<lparr>http_status = 200, body = Some (BodyStream chunks None),
      json = Inl (Error (js ''Unexpected token d''))\<rparr>"

definition truncatedStream :: response where
  "truncatedStream = streamOf [deltaFrame truncatedText @ [10], stopFrame @ [10]]"

definition completeStream :: response where
  "completeStream = streamOf [deltaFrame (JSON_stringify oneFile) @ [10]]"

definition completeAnswer :: response where
  "completeAnswer =
     \<lparr>http_status = 200, body = None,
      json = Inr \<lparr>content = [JSON_stringify oneFile], stop_reason = Some (js ''end_turn'')\<rparr>\<rparr>"

definition secondFile :: filestate where
  "secondFile = [(js ''/b.js'', js ''2'')]"

definition updateAnswer :: response where
  "updateAnswer =
     \<lparr>http_status = 200, body = None,
      json = Inr \<lparr>content = [JSON_stringify secondFile], stop_reason = Some (js ''end_turn'')\<rparr>\<rparr>"

text \<open>
  Requests for a new project (streaming or not) and for an update of the conversation
  created by the first; the documents and the event sequences they lead to.
\<close>

definition createRequest :: request_body where
  "createRequest =
     \<lparr>prompt = Some (js ''Create a counter''), existingFiles = None, body_uploadedFiles = None,
      streaming = None, body_userId = None, body_conversationId = None,
      isIterativeUpdate = None\<rparr>"

definition streamingRequest :: request_body where
  "streamingRequest = createRequest\<lparr>streaming := Some True\<rparr>"

definition updateRequest :: request_body where
  "updateRequest =
     \<lparr>prompt = Some (js ''Rename the file''), existingFiles = None, body_uploadedFiles = None,
      streaming = None, body_userId = None, body_conversationId = Some (js ''65a1b2c3d4e5f60718293a4b''),
      isIterativeUpdate = Some True\<rparr>"

definition firstTurn :: ConversationTurn where
  "firstTurn =
     \<lparr>turn_prompt = Some (js ''Create a counter''), timestamp = 0,
      fileChanges = [\<lparr>path = js ''/a.js'', status = New, previousContent = None\<rparr>],
      fullState = oneFile\<rparr>"

definition createdConversation :: Conversation where
  "createdConversation =
     \<lparr>userId = js ''anonymous'', initialPrompt = Some (js ''Create a counter''),
      uploadedFiles = [], conversationTurns = [firstTurn], currentFiles = oneFile\<rparr>"

definition secondTurn :: ConversationTurn where
  "secondTurn =
     \<lparr>turn_prompt = Some (js ''Rename the file''), timestamp = 0,
      fileChanges =
        [\<lparr>path = js ''/a.js'', status = Deleted, previousContent = Some (Str (js ''1''))\<rparr>,
         \<lparr>path = js ''/b.js'', status = New, previousContent = None\<rparr>],
      fullState = oneFile @ secondFile\<rparr>"

definition updatedConversation :: Conversation where
  "updatedConversation =
     createdConversation\<lparr>conversationTurns := [firstTurn, secondTurn],
                          currentFiles := oneFile @ secondFile\<rparr>"

definition truncatingEnvironment :: environment where
  "truncatingEnvironment = readyEnvironment\<lparr>provider := answering truncatedStream\<rparr>"

definition completingEnvironment :: environment where
  "completingEnvironment = readyEnvironment\<lparr>provider := answering completeStream\<rparr>"

definition answeringEnvironment :: environment where
  "answeringEnvironment = readyEnvironment\<lparr>provider := answering completeAnswer\<rparr>"

definition updatingEnvironment :: environment where
  "updatingEnvironment = readyEnvironment\<lparr>provider := answering updateAnswer\<rparr>"

definition failingSaveEnvironment :: environment where
  "failingSaveEnvironment = completingEnvironment\<lparr>saveError := Some (Error (js ''write failed''))\<rparr>"

definition completeRun :: "sse list" where
  "completeRun =
     [StatusEvent (js ''Starting generation...''),
      ProgressEvent (JString (JSON_stringify oneFile)),
      FileEvent (js ''/a.js'') (js ''1'') New,
      CompleteEvent (js ''65a1b2c3d4e5f60718293a4b'') (js ''anonymous'')
        [\<lparr>path = js ''/a.js'', status = New, previousContent = None\<rparr>] oneFile False]"

definition failedRun :: "sse list" where
  "failedRun =
     [StatusEvent (js ''Starting generation...''),
      ProgressEvent (JString (JSON_stringify oneFile)),
      ErrorEvent (js ''write failed'')]"

section \<open>Properties of the reconciler\<close>

lemma collectChanges_map_filter:
  "collectChanges A B ps acc = acc @ List.map_filter (classifyPath A B) ps"
  by (induction ps arbitrary: acc) (simp_all add: List.map_filter_simps split: option.split)

lemma classifyPath_path: "classifyPath A B p = Some c \<Longrightarrow> path c = p"
  by (auto simp: classifyPath_def Let_def split: if_splits)

lemma classifyPath_None_iff: "classifyPath A B p = None \<longleftrightarrow> getProp A p = getProp B p"
  by (auto simp: classifyPath_def Let_def)

lemma map_path_map_filter:
  "map path (List.map_filter (classifyPath A B) ps) =
   filter (\<lambda>p. classifyPath A B p \<noteq> None) ps"
proof (induction ps)
  case Nil
  show ?case by (simp add: List.map_filter_simps)
next
  case (Cons p ps)
  then show ?case
    by (cases "classifyPath A B p") (simp_all add: List.map_filter_simps classifyPath_path)
qed

lemma paths_detectFileChanges:
  "map path (detectFileChanges A B) =
   filter (\<lambda>p. getProp A p \<noteq> getProp B p) (allPaths A B)"
  by (simp add: detectFileChanges_def collectChanges_map_filter map_path_map_filter
      classifyPath_None_iff)

lemma distinct_allPaths: "distinct (allPaths A B)"
  by (simp add: allPaths_def)

lemma set_allPaths: "set (allPaths A B) = fst ` set A \<union> fst ` set B"
  by (auto simp: allPaths_def keys_def)

lemma getProp_same_content:
  "map_of A p = Some c \<Longrightarrow> map_of B p = Some c \<Longrightarrow> getProp A p = getProp B p"
  by (simp add: getProp_def)

lemma getProp_differs:
  assumes "p \<in> fst ` set A \<union> fst ` set B"
    and "\<not> (\<exists>c. map_of A p = Some c \<and> map_of B p = Some c)"
  shows "getProp A p \<noteq> getProp B p"
proof -
  from assms(1) have "map_of A p \<noteq> None \<or> map_of B p \<noteq> None"
    by (auto simp: map_of_eq_None_iff)
  with assms(2) show ?thesis
    by (auto simp: getProp_def split: option.splits)
qed

lemma distinct_map_unique:
  assumes "distinct (map f xs)" and "p \<in> f ` set xs"
  shows "\<exists>!c. c \<in> set xs \<and> f c = p"
proof -
  from assms(2) obtain c where c: "c \<in> set xs" "f c = p" by auto
  have "d = c" if "d \<in> set xs" "f d = p" for d
    using that c assms(1) by (metis distinct_map inj_on_def)
  with c show ?thesis by blast
qed

text \<open>
  Claim C2. For every pair of file states, no path occurs twice in the result of the
  diff; every path of the result is a key of one of the two states; a key with the same
  content in both states is left out, and every other key of the union occurs in
  exactly one change, whose status is new, updated or deleted.
\<close>

theorem detectFileChanges_classifies_each_path_once:
  "distinct (map path (detectFileChanges A B)) \<and>
   path ` set (detectFileChanges A B) \<subseteq> fst ` set A \<union> fst ` set B \<and>
   (\<forall>p \<in> fst ` set A \<union> fst ` set B.
      if (\<exists>c. map_of A p = Some c \<and> map_of B p = Some c)
      then p \<notin> path ` set (detectFileChanges A B)
      else (\<exists>!c. c \<in> set (detectFileChanges A B) \<and> path c = p \<and>
                  status c \<in> {New, Updated, Deleted}))"
proof (intro conjI ballI)
  show d: "distinct (map path (detectFileChanges A B))"
    by (simp add: paths_detectFileChanges distinct_allPaths)
  have s: "path ` set (detectFileChanges A B) =
           {p \<in> fst ` set A \<union> fst ` set B. getProp A p \<noteq> getProp B p}"
    using arg_cong [OF paths_detectFileChanges [of A B], of set]
    by (simp add: set_allPaths)
  show "path ` set (detectFileChanges A B) \<subseteq> fst ` set A \<union> fst ` set B"
    unfolding s by blast
  fix p assume p: "p \<in> fst ` set A \<union> fst ` set B"
  show "if (\<exists>c. map_of A p = Some c \<and> map_of B p = Some c)
        then p \<notin> path ` set (detectFileChanges A B)
        else (\<exists>!c. c \<in> set (detectFileChanges A B) \<and> path c = p \<and>
                    status c \<in> {New, Updated, Deleted})"
  proof (cases "\<exists>c. map_of A p = Some c \<and> map_of B p = Some c")
    case True
    then have "getProp A p = getProp B p"
      by (auto intro: getProp_same_content)
    with True show ?thesis unfolding s by simp
  next
    case False
    with p have "getProp A p \<noteq> getProp B p" by (rule getProp_differs)
    with p have "p \<in> path ` set (detectFileChanges A B)" unfolding s by simp
    with d have "\<exists>!c. c \<in> set (detectFileChanges A B) \<and> path c = p"
      by (rule distinct_map_unique)
    moreover have "status c \<in> {New, Updated, Deleted}" for c :: FileChange
      by (cases "status c") simp_all
    ultimately have "\<exists>!c. c \<in> set (detectFileChanges A B) \<and> path c = p \<and>
                          status c \<in> {New, Updated, Deleted}"
      by auto
    with False show ?thesis by (simp only: if_False)
  qed
qed

theorem detectFileChanges_classifies_each_path_once_witness:
  "js ''/b.js'' \<in> fst ` set [(js ''/a.js'', js ''x''), (js ''/b.js'', js ''y'')] \<union>
        fst ` set [(js ''/a.js'', js ''x''), (js ''/b.js'', js ''z'')] \<and>
   (\<exists>!c. c \<in> set (detectFileChanges [(js ''/a.js'', js ''x''), (js ''/b.js'', js ''y'')]
                     [(js ''/a.js'', js ''x''), (js ''/b.js'', js ''z'')]) \<and>
         path c = js ''/b.js'' \<and> status c \<in> {New, Updated, Deleted})"
proof -
  let ?A = "[(js ''/a.js'', js ''x''), (js ''/b.js'', js ''y'')]"
  let ?B = "[(js ''/a.js'', js ''x''), (js ''/b.js'', js ''z'')]"
  have m: "js ''/b.js'' \<in> fst ` set ?A \<union> fst ` set ?B" by simp
  have n: "\<not> (\<exists>c. map_of ?A (js ''/b.js'') = Some c \<and> map_of ?B (js ''/b.js'') = Some c)"
    by (simp add: js_def)
  from detectFileChanges_classifies_each_path_once [of ?A ?B] m n
  show ?thesis by (metis (no_types, lifting))
qed

text \<open>
  Claim C3, evaluated at a file whose content is the empty string. The presence tests
  of the loop are truthiness tests, and \<^verbatim>\<open>""\<close> is falsy: a path that only the new state
  has, with empty content, falls through to the third branch and is pushed as updated
  (with \<^verbatim>\<open>previousContent: undefined\<close>), and a path that only the previous state
  has, with empty content, is pushed as updated as well, not as deleted.
\<close>

theorem detectFileChanges_empty_content_is_updated:
  "detectFileChanges [] [(js ''/src/styles.css'', [])] =
     [\<lparr>path = js ''/src/styles.css'', status = Updated, previousContent = Some Undefined\<rparr>] \<and>
   detectFileChanges [(js ''/src/styles.css'', [])] [] =
     [\<lparr>path = js ''/src/styles.css'', status = Updated, previousContent = Some (Str [])\<rparr>]"
  by (simp add: detectFileChanges_def allPaths_def keys_def classifyPath_def getProp_def
      truthy_def objectPrototypeNames_def js_def)

text \<open>
  Where every content is a non-empty string and no key is a property name of
  \<^verbatim>\<open>Object.prototype\<close>, the diff against the empty state marks every path deleted, with
  its content, and the diff of the empty state against it marks every path new.
\<close>

lemma map_filter_all:
  "\<forall>x \<in> set xs. f (h x) = Some (g x) \<Longrightarrow> List.map_filter f (map h xs) = map g xs"
  by (induction xs) (simp_all add: List.map_filter_simps)

lemma allPaths_empty:
  "distinct (keys A) \<Longrightarrow> allPaths A [] = keys A" "distinct (keys A) \<Longrightarrow> allPaths [] A = keys A"
  by (simp_all add: allPaths_def keys_def distinct_remdups_id)

lemma detectFileChanges_against_empty:
  assumes "distinct (keys A)" and "\<forall>kv \<in> set A. snd kv \<noteq> []"
    and "set (keys A) \<inter> set objectPrototypeNames = {}"
  shows "detectFileChanges A [] =
           map (\<lambda>kv. \<lparr>path = fst kv, status = Deleted, previousContent = Some (Str (snd kv))\<rparr>) A"
    and "detectFileChanges [] A =
           map (\<lambda>kv. \<lparr>path = fst kv, status = New, previousContent = None\<rparr>) A"
proof -
  have g: "getProp A (fst kv) = Str (snd kv)" "getProp [] (fst kv) = Undefined"
    if "kv \<in> set A" for kv
  proof -
    from that assms(1) have "map_of A (fst kv) = Some (snd kv)"
      by (simp add: keys_def)
    then show "getProp A (fst kv) = Str (snd kv)" by (simp add: getProp_def)
    from that assms(3) have "fst kv \<notin> set objectPrototypeNames"
      by (auto simp: keys_def)
    then show "getProp [] (fst kv) = Undefined" by (simp add: getProp_def)
  qed
  have "\<forall>kv \<in> set A. classifyPath A [] (fst kv) =
      Some \<lparr>path = fst kv, status = Deleted, previousContent = Some (Str (snd kv))\<rparr>"
    using assms(2) by (simp add: classifyPath_def g truthy_def)
  then show "detectFileChanges A [] =
      map (\<lambda>kv. \<lparr>path = fst kv, status = Deleted, previousContent = Some (Str (snd kv))\<rparr>) A"
    unfolding detectFileChanges_def collectChanges_map_filter allPaths_empty(1) [OF assms(1)] keys_def
    by (simp add: map_filter_all)
  have "\<forall>kv \<in> set A. classifyPath [] A (fst kv) =
      Some \<lparr>path = fst kv, status = New, previousContent = None\<rparr>"
    using assms(2) by (simp add: classifyPath_def g truthy_def)
  then show "detectFileChanges [] A =
      map (\<lambda>kv. \<lparr>path = fst kv, status = New, previousContent = None\<rparr>) A"
    unfolding detectFileChanges_def collectChanges_map_filter allPaths_empty(2) [OF assms(1)] keys_def
    by (simp add: map_filter_all)
qed

section \<open>Properties of the retry wrapper\<close>

lemma decimal_529: "decimal 529 = js ''529''"
  by (simp add: decimal.simps js_def)

text \<open>
  Claim C4, as the code has it. When every call of \<^verbatim>\<open>fetch\<close> answers with status 529,
  the wrapper calls \<^verbatim>\<open>fetch\<close> exactly three times, waits 1000 ms after the first call
  and 2000 ms after the second, and after the third call throws \<^verbatim>\<open>Status: 529\<close>
  without waiting again.
\<close>

theorem fetchWithRetry_always_529:
  assumes "\<forall>n. \<exists>r. fetch n = Responds r \<and> http_status r = 529"
  shows "fetchWithRetry fetch =
    ([DoFetch, Sleep 1000, DoFetch, Sleep 2000, DoFetch], Inl (Error (js ''Status: 529'')))"
proof -
  from assms obtain r1 where r1: "fetch 1 = Responds r1" "http_status r1 = 529" by blast
  from assms obtain r2 where r2: "fetch 2 = Responds r2" "http_status r2 = 529" by blast
  from assms obtain r3 where r3: "fetch 3 = Responds r3" "http_status r3 = 529" by blast
  have a3: "fetchAttempts fetch 3 3 b = ([DoFetch], Inl (Error (js ''Status: 529'')))" for b
    using r3 by (subst fetchAttempts.simps) (simp add: ok_def decimal_529 js_def)
  have a2: "fetchAttempts fetch 3 2 2000 =
      ([DoFetch, Sleep 2000, DoFetch], Inl (Error (js ''Status: 529'')))"
    using r2 by (subst fetchAttempts.simps) (simp add: a3 io_then_def)
  have a1: "fetchAttempts fetch 3 1 1000 =
      ([DoFetch, Sleep 1000, DoFetch, Sleep 2000, DoFetch], Inl (Error (js ''Status: 529'')))"
    using r1
    by (subst fetchAttempts.simps) (simp add: a2 [unfolded numeral_2_eq_2] io_then_def)
  then show ?thesis by (simp add: fetchWithRetry_def)
qed

theorem fetchWithRetry_always_529_witness:
  "(\<forall>n. \<exists>r. always529 n = Responds r \<and> http_status r = 529) \<and>
   fetchWithRetry always529 =
    ([DoFetch, Sleep 1000, DoFetch, Sleep 2000, DoFetch], Inl (Error (js ''Status: 529'')))"
proof -
  have h: "\<forall>n. \<exists>r. always529 n = Responds r \<and> http_status r = 529"
    by (simp add: always529_def overloadedResponse_def)
  from h fetchWithRetry_always_529 [OF h] show ?thesis by simp
qed

text \<open>
  The claim as stated asks for a third wait of 4000 ms after the third call. The guard
  \<^verbatim>\<open>attempt < retries\<close> and the rethrow at \<^verbatim>\<open>attempt === retries\<close> exclude it.
\<close>

theorem fetchWithRetry_no_third_sleep:
  "fst (fetchWithRetry always529) \<noteq>
     [DoFetch, Sleep 1000, DoFetch, Sleep 2000, DoFetch, Sleep 4000] \<and>
   Sleep 4000 \<notin> set (fst (fetchWithRetry always529))"
  by (simp add: fetchWithRetry_def fetchAttempts.simps always529_def overloadedResponse_def
      io_then_def ok_def)

section \<open>Properties of the scheduler\<close>

lemma totalLength_append: "totalLength (xs @ ys) = totalLength xs + totalLength ys"
  by (simp add: totalLength_def)

lemma offset_Suc:
  "i < length files \<Longrightarrow> offset files (Suc i) = offset files i + length (snd (files ! i))"
  by (simp add: offset_def take_Suc_conv_app_nth totalLength_append) (simp add: totalLength_def)

lemma offset_mono: "i \<le> j \<Longrightarrow> offset files i \<le> offset files j"
proof -
  assume "i \<le> j"
  then have "take j files = take i files @ take (j - i) (drop i files)"
    by (metis le_add_diff_inverse take_add)
  then show ?thesis by (simp add: offset_def totalLength_append)
qed

lemma offset_length: "offset files (length files) = totalLength files"
  by (simp add: offset_def)

lemma offset_le_total: "offset files i \<le> totalLength files"
  by (metis offset_length offset_mono nat_le_linear offset_def take_all)

lemma currentFileName_nth:
  "i < length files \<Longrightarrow> currentFileName files i = fst (files ! i)"
  by (simp add: currentFileName_def keys_def)

lemma currentFileContent_nth:
  "distinct (keys files) \<Longrightarrow> i < length files \<Longrightarrow> currentFileContent files i = snd (files ! i)"
proof -
  assume d: "distinct (keys files)" and i: "i < length files"
  then have "(fst (files ! i), snd (files ! i)) \<in> set files" by simp
  with d have "map_of files (fst (files ! i)) = Some (snd (files ! i))"
    by (simp add: keys_def)
  with i show ?thesis by (simp add: currentFileContent_def currentFileName_nth)
qed

lemma shown_next:
  "i < length files \<Longrightarrow> shown files (Suc i) 0 = shown files i (length (snd (files ! i)))"
  by (cases "files ! i") (auto simp: shown_def take_Suc_conv_app_nth)

lemma setProp_append:
  "k \<notin> fst ` set xs \<Longrightarrow> setProp (xs @ ys) k v = xs @ setProp ys k v"
  by (induction xs) auto

lemma shown_step:
  assumes "distinct (keys files)" "i < length files"
  shows "setProp (shown files i c) (fst (files ! i)) (take (Suc c) (snd (files ! i))) =
         shown files i (Suc c)"
proof -
  have "fst (files ! i) \<notin> fst ` set (take i files)"
  proof
    assume "fst (files ! i) \<in> fst ` set (take i files)"
    then obtain j where "j < i" "fst (files ! j) = fst (files ! i)"
      using assms(2) by (auto simp: in_set_conv_nth)
    with assms show False
      by (simp add: keys_def distinct_conv_nth)
  qed
  then have "fst (files ! i) \<notin> fst ` set (filter (\<lambda>kv. snd kv \<noteq> []) (take i files))"
    by auto
  then show ?thesis
    by (simp add: shown_def setProp_append)
qed

lemma runEffect_settles:
  assumes "distinct (keys files)"
  shows "positioned files k st \<Longrightarrow> \<not> isComplete st \<Longrightarrow> \<not> hasNavigated st \<Longrightarrow>
         completions st = 0 \<Longrightarrow>
         positioned files k (runEffect files st) \<and>
         (revealing files (runEffect files st) \<or> allComplete files k (runEffect files st))"
proof (induction "length files - currentFileIndex st" arbitrary: st)
  case 0
  then show ?case by (simp add: positioned_def)
next
  case (Suc n)
  let ?i = "currentFileIndex st" and ?c = "currentCharIndex st"
  from Suc.prems have i: "?i < length files" and c: "?c \<le> length (snd (files ! ?i))"
    and k: "offset files ?i + ?c = k" and d: "displayedFiles st = shown files ?i ?c"
    by (simp_all add: positioned_def)
  have nm: "currentFileName files ?i = fst (files ! ?i)"
    using i by (rule currentFileName_nth)
  have ct: "currentFileContent files ?i = snd (files ! ?i)"
    using assms i by (rule currentFileContent_nth)
  from i have ne: "length (keys files) \<noteq> 0" by (auto simp: keys_def)
  show ?case
  proof (cases "?c < length (snd (files ! ?i))")
    case True
    then have "runEffect files st =
        st\<lparr>streamingTimer := Some (fst (files ! ?i), snd (files ! ?i), ?c)\<rparr>"
      using ne by (subst runEffect.simps) (simp add: nm ct)
    with True Suc.prems show ?thesis
      by (simp add: positioned_def revealing_def)
  next
    case False
    with c have full: "?c = length (snd (files ! ?i))" by simp
    show ?thesis
    proof (cases "?i < length (keys files) - 1")
      case True
      let ?st' = "st\<lparr>currentFileIndex := ?i + 1, currentCharIndex := 0, streamingTimer := None\<rparr>"
      have r: "runEffect files st = runEffect files ?st'"
        using ne False True by (subst runEffect.simps) (simp add: ct)
      from True have i': "Suc ?i < length files" by (simp add: keys_def)
      have "positioned files k ?st'"
        using i i' k d full by (simp add: positioned_def offset_Suc shown_next)
      moreover have "n = length files - currentFileIndex ?st'"
        using Suc.hyps(2) by simp
      ultimately show ?thesis
        unfolding r using Suc.prems by (intro Suc.hyps(1)) simp_all
    next
      case last: False
      let ?st' = "st\<lparr>isComplete := True, hasNavigated := True, streamingTimer := None,
                     completions := completions st + 1\<rparr>"
      have r: "runEffect files st = runEffect files ?st'"
        using ne False last Suc.prems by (subst runEffect.simps) (simp add: ct)
      have r': "runEffect files ?st' = ?st'\<lparr>streamingTimer := None\<rparr>"
        using ne False last by (subst runEffect.simps) (simp add: ct)
      from last i have "Suc ?i = length files" by (simp add: keys_def)
      then have "offset files ?i + ?c = totalLength files"
        using offset_Suc [OF i] full by (simp add: offset_length)
      with k have "k = totalLength files" by simp
      then show ?thesis
        unfolding r r' using Suc.prems
        by (simp add: positioned_def allComplete_def)
    qed
  qed
qed

lemma revealing_before_end:
  assumes "positioned files k st" "revealing files st"
  shows "k < totalLength files"
proof -
  let ?i = "currentFileIndex st"
  from assms have i: "?i < length files" by (simp add: positioned_def)
  from assms have "k < offset files ?i + length (snd (files ! ?i))"
    by (auto simp: positioned_def revealing_def)
  also have "\<dots> = offset files (Suc ?i)" using i by (simp add: offset_Suc)
  also have "\<dots> \<le> totalLength files" by (rule offset_le_total)
  finally show ?thesis .
qed

lemma tick_reveals_one:
  assumes "distinct (keys files)" "positioned files k st" "revealing files st"
  shows "positioned files (Suc k) (tick files st) \<and>
         (revealing files (tick files st) \<or> allComplete files (Suc k) (tick files st))"
proof -
  let ?i = "currentFileIndex st" and ?c = "currentCharIndex st"
  let ?st' = "st\<lparr>displayedFiles :=
                    setProp (displayedFiles st) (fst (files ! ?i)) (take (?c + 1) (snd (files ! ?i))),
                  currentCharIndex := ?c + 1, streamingTimer := None\<rparr>"
  from assms(3) have t: "tick files st = runEffect files ?st'"
    by (simp add: tick_def revealing_def)
  from assms(2) have i: "?i < length files" by (simp add: positioned_def)
  have "positioned files (Suc k) ?st'"
    using assms(2,3) shown_step [OF assms(1) i]
    by (simp add: positioned_def revealing_def)
  moreover from assms(3) have "\<not> isComplete ?st'" "\<not> hasNavigated ?st'" "completions ?st' = 0"
    by (simp_all add: revealing_def)
  ultimately show ?thesis
    unfolding t by (rule runEffect_settles [OF assms(1)])
qed

lemma tick_allComplete: "allComplete files k st \<Longrightarrow> tick files st = st"
  by (simp add: tick_def allComplete_def)

lemma mounted_settles:
  assumes "distinct (keys files)" "files \<noteq> []"
  shows "positioned files 0 (mounted files) \<and>
         (revealing files (mounted files) \<or> allComplete files 0 (mounted files))"
  unfolding mounted_def using assms(2)
  by (intro runEffect_settles [OF assms(1)]) (simp_all add: positioned_def offset_def shown_def totalLength_def)

lemma afterTicks_Suc: "afterTicks files (Suc k) = tick files (afterTicks files k)"
  by (simp add: afterTicks_def)

lemma afterTicks_invariant:
  assumes "distinct (keys files)" "files \<noteq> []"
  shows "k \<le> totalLength files \<Longrightarrow>
         positioned files k (afterTicks files k) \<and>
         (revealing files (afterTicks files k) \<or> allComplete files k (afterTicks files k))"
proof (induction k)
  case 0
  show ?case using mounted_settles [OF assms] by (simp add: afterTicks_def)
next
  case (Suc k)
  then have ih: "positioned files k (afterTicks files k)"
    "revealing files (afterTicks files k) \<or> allComplete files k (afterTicks files k)"
    by simp_all
  from Suc.prems have "\<not> allComplete files k (afterTicks files k)"
    by (simp add: allComplete_def)
  with ih have "revealing files (afterTicks files k)" by simp
  with ih(1) show ?case
    unfolding afterTicks_Suc by (intro tick_reveals_one [OF assms(1)])
qed

lemma afterTicks_end:
  assumes "distinct (keys files)" "files \<noteq> []"
  shows "allComplete files (totalLength files) (afterTicks files (totalLength files))"
proof -
  let ?st = "afterTicks files (totalLength files)"
  from afterTicks_invariant [OF assms, of "totalLength files"]
  have p: "positioned files (totalLength files) ?st"
    and "revealing files ?st \<or> allComplete files (totalLength files) ?st" by simp_all
  moreover have "\<not> revealing files ?st"
    using revealing_before_end [OF p] by auto
  ultimately show ?thesis by simp
qed

lemma afterTicks_stays:
  assumes "distinct (keys files)" "files \<noteq> []"
  shows "afterTicks files (totalLength files + m) = afterTicks files (totalLength files)"
proof (induction m)
  case 0
  show ?case by simp
next
  case (Suc m)
  then show ?case
    using tick_allComplete [OF afterTicks_end [OF assms]] by (simp add: afterTicks_Suc)
qed

lemma revealed_shown:
  "c \<le> length (snd (files ! i)) \<Longrightarrow> totalLength (shown files i c) = offset files i + c"
proof -
  have "totalLength (filter (\<lambda>kv. snd kv \<noteq> []) xs) = totalLength xs" for xs :: filestate
    by (induction xs) (simp_all add: totalLength_def)
  then show "c \<le> length (snd (files ! i)) \<Longrightarrow> ?thesis"
    by (simp add: shown_def totalLength_append offset_def) (simp add: totalLength_def)
qed

text \<open>
  Claim C9. For a fixed, non-empty list of files with distinct names and \<open>L\<close> characters
  in total: after \<open>k\<close> firings of the timer, \<open>min k L\<close> characters are shown; while
  \<open>k < L\<close> the pending timeout is the one for the file that holds the \<open>k\<close>-th character
  (the files before it are shown in full, the cursor has moved on past fully revealed
  files), and the completion callback has not been called; from \<open>k = L\<close> on it has been
  called exactly once, whatever the number of files.
\<close>

theorem scheduler_completes_once_after_all_characters:
  assumes "files \<noteq> []" and "distinct (keys files)"
  shows "completions (afterTicks files k) = (if totalLength files \<le> k then 1 else 0) \<and>
         revealed (afterTicks files k) = min k (totalLength files) \<and>
         (k < totalLength files \<longrightarrow>
            (\<exists>i c. i < length files \<and> c < length (snd (files ! i)) \<and>
                   offset files i + c = k \<and>
                   streamingTimer (afterTicks files k) =
                     Some (fst (files ! i), snd (files ! i), c) \<and>
                   displayedFiles (afterTicks files k) = shown files i c))"
proof (cases "k < totalLength files")
  case True
  let ?st = "afterTicks files k"
  from True afterTicks_invariant [OF assms(2,1), of k]
  have p: "positioned files k ?st"
    and ra: "revealing files ?st \<or> allComplete files k ?st" by simp_all
  from True ra have r: "revealing files ?st" by (auto simp: allComplete_def)
  from p have "revealed ?st = k"
    by (simp add: revealed_def positioned_def revealed_shown)
  moreover from p r have "\<exists>i c. i < length files \<and> c < length (snd (files ! i)) \<and>
      offset files i + c = k \<and>
      streamingTimer ?st = Some (fst (files ! i), snd (files ! i), c) \<and>
      displayedFiles ?st = shown files i c"
    unfolding positioned_def revealing_def by blast
  ultimately show ?thesis using True r by (simp add: revealing_def)
next
  case False
  then obtain m where k: "k = totalLength files + m"
    by (metis le_add_diff_inverse not_less)
  let ?st = "afterTicks files (totalLength files)"
  have e: "afterTicks files k = ?st"
    unfolding k by (rule afterTicks_stays [OF assms(2,1)])
  have a: "allComplete files (totalLength files) ?st"
    by (rule afterTicks_end [OF assms(2,1)])
  from afterTicks_invariant [OF assms(2,1), of "totalLength files"]
  have "positioned files (totalLength files) ?st" by simp
  then have "revealed ?st = totalLength files"
    by (simp add: revealed_def positioned_def revealed_shown)
  with a False show ?thesis
    unfolding e by (simp add: allComplete_def)
qed

theorem scheduler_completes_once_after_all_characters_witness:
  "twoFiles \<noteq> [] \<and> distinct (keys twoFiles) \<and> 2 < totalLength twoFiles \<and>
   completions (afterTicks twoFiles 2) = 0 \<and> revealed (afterTicks twoFiles 2) = 2 \<and>
   completions (afterTicks twoFiles 3) = 1 \<and> completions (afterTicks twoFiles 4) = 1"
proof -
  have a: "twoFiles \<noteq> []" by (simp add: twoFiles_def)
  have b: "distinct (keys twoFiles)" by (simp add: twoFiles_def keys_def js_def)
  have c: "totalLength twoFiles = 3" by (simp add: twoFiles_def totalLength_def js_def)
  from scheduler_completes_once_after_all_characters [OF a b, of 2]
    scheduler_completes_once_after_all_characters [OF a b, of 3]
    scheduler_completes_once_after_all_characters [OF a b, of 4]
  show ?thesis using a b c by simp
qed

section \<open>Properties of the client stream consumers\<close>










lemma map_of_setProp_same: "map_of (setProp st k v) k = Some v"
  by (induction st) auto




section \<open>Properties of the parser\<close>

text \<open>
  A successful parse consumes at least one code unit, and it succeeds with the same
  result for every bound that is at least the number of code units it consumes. So the
  bound \<open>JSON_parse\<close> gives is enough: with any larger one the answer is the same.
\<close>

lemma length_skipSpace: "length (skipSpace s) \<le> length s"
  by (simp add: skipSpace_def length_dropWhile_le)

lemma skipSpace_Cons_length: "skipSpace s = c # r \<Longrightarrow> length r < length s"
  using length_skipSpace [of s] by simp

lemma parseChars_length: "parseChars s = Some (k, r) \<Longrightarrow> length r < length s"
proof (induction s arbitrary: k r rule: length_induct)
  case (1 s)
  then have IH: "\<And>t k r. length t < length s \<Longrightarrow> parseChars t = Some (k, r) \<Longrightarrow> length r < length t"
    by blast
  from 1(2) obtain c cs where s: "s = c # cs" by (cases s) (simp_all add: parseChars.simps)
  from 1(2) [unfolded s parseChars.simps]
  have "r = cs \<or> (\<exists>t k'. length t < length s \<and> parseChars t = Some (k', r))"
    unfolding s consChar_def
    by (fastforce split: if_splits list.splits option.splits)
  then show ?case
  proof
    assume "r = cs"
    then show ?thesis by (simp add: s)
  next
    assume "\<exists>t k'. length t < length s \<and> parseChars t = Some (k', r)"
    then obtain t k' where t: "length t < length s" "parseChars t = Some (k', r)" by blast
    with IH [OF t] show ?thesis by simp
  qed
qed



lemma dropWhile_shorter: "takeWhile P xs \<noteq> [] \<Longrightarrow> length (dropWhile P xs) < length xs"
  by (cases xs) (auto simp: le_imp_less_Suc length_dropWhile_le split: if_splits)

lemma length_digits: "length (snd (digitsOf s)) \<le> length s"
  by (simp add: digitsOf_def length_dropWhile_le)

lemma parseNumber_length: "parseNumber s = Some (l, r) \<Longrightarrow> length r < length s"
proof -
  assume a: "parseNumber s = Some (l, r)"
  define s1 where "s1 = (case s of c # r \<Rightarrow> if c = 45 then r else s | [] \<Rightarrow> s)"
  define whole where "whole = (case s1 of c # r \<Rightarrow> if c = 48 then [48] else fst (digitsOf s1) | [] \<Rightarrow> [])"
  define s2 where "s2 = (case s1 of c # r \<Rightarrow> if c = 48 then r else snd (digitsOf s1) | [] \<Rightarrow> s1)"
  define s3 where "s3 = (case s2 of c # r \<Rightarrow> if c = 46 then snd (digitsOf r) else s2 | [] \<Rightarrow> s2)"
  define s4 where "s4 = (case s3 of
                          c # r \<Rightarrow>
                            if c = 101 \<or> c = 69 then
                              (case r of
                                 g # r' \<Rightarrow>
                                   if g = 43 \<or> g = 45 then snd (digitsOf r')
                                   else snd (digitsOf r)
                               | [] \<Rightarrow> r)
                            else s3
                        | [] \<Rightarrow> s3)"
  have 1: "length s1 \<le> length s" by (auto simp: s1_def split: list.splits)
  have 2: "whole \<noteq> [] \<Longrightarrow> length s2 < length s1"
    by (auto simp: whole_def s2_def digitsOf_def le_imp_less_Suc length_dropWhile_le
        split: list.splits if_splits)
  have d: "length (snd (digitsOf t)) \<le> n" if "length t \<le> n" for t n
    using length_digits [of t] that by simp
  have 3: "length s3 \<le> length s2"
    by (auto simp: s3_def intro!: d split: list.splits)
  have 4: "length s4 \<le> length s3"
    by (auto simp: s4_def intro!: d split: list.splits)
  from a have "whole \<noteq> [] \<and> r = s4"
    unfolding parseNumber_def s1_def whole_def s2_def s3_def s4_def
    by (auto simp: Let_def split: list.splits if_splits prod.splits)
  with 1 2 3 4 show ?thesis by simp
qed


lemma parseValue_leaf:
  "c \<noteq> 123 \<Longrightarrow> c \<noteq> 91 \<Longrightarrow> parseValue (Suc k) (c # cs) = parseValue (Suc 0) (c # cs)"
  by (simp add: parseValue.simps)

lemma parseValue_leaf_length:
  assumes "c \<noteq> 123" and "c \<noteq> 91" and "parseValue (Suc k) (c # cs) = Some (v, r)"
  shows "length r < Suc (length cs)"
  using assms(3) unfolding parseValue.simps
  by (auto simp: assms(1,2) dest: parseChars_length parseNumber_length split: if_splits)

lemma parseMembers_Suc_Some:
  assumes "parseMembers (Suc m) s = Some (ms, r)"
  shows "\<exists>cs k r1 r2 v r3 e r4.
           s = 34 # cs \<and> parseChars cs = Some (k, r1) \<and> skipSpace r1 = 58 # r2 \<and>
           parseValue m (skipSpace r2) = Some (v, r3) \<and> skipSpace r3 = e # r4 \<and>
           (e = 125 \<and> ms = [(k, v)] \<and> r = r4 \<or>
            e = 44 \<and> (\<exists>ms'. parseMembers m (skipSpace r4) = Some (ms', r) \<and> ms = (k, v) # ms'))"
  using assms unfolding parseMembers.simps
  by (auto split: list.splits option.splits if_splits)

lemma parseElements_Suc_Some:
  assumes "parseElements (Suc m) s = Some (vs, r)"
  shows "\<exists>v r1 e r2.
           parseValue m (skipSpace s) = Some (v, r1) \<and> skipSpace r1 = e # r2 \<and>
           (e = 93 \<and> vs = [v] \<and> r = r2 \<or>
            e = 44 \<and> (\<exists>vs'. parseElements m r2 = Some (vs', r) \<and> vs = v # vs'))"
  using assms unfolding parseElements.simps
  by (auto split: list.splits option.splits if_splits)


lemma parse_consumes:
  "(\<forall>s v r. parseValue m s = Some (v, r) \<longrightarrow>
      length r < length s \<and>
      (\<forall>n. length s - length r \<le> n \<longrightarrow> parseValue n s = Some (v, r))) \<and>
   (\<forall>s ms r. parseMembers m s = Some (ms, r) \<longrightarrow>
      length r < length s \<and>
      (\<forall>n. length s - length r \<le> n \<longrightarrow> parseMembers n s = Some (ms, r))) \<and>
   (\<forall>s vs r. parseElements m s = Some (vs, r) \<longrightarrow>
      length r < length s \<and>
      (\<forall>n. length s - length r \<le> n \<longrightarrow> parseElements n s = Some (vs, r)))"
proof (induction m)
  case 0
  show ?case by (simp add: parseValue.simps parseMembers.simps parseElements.simps)
next
  case (Suc m)
  then have V: "\<And>s v r. parseValue m s = Some (v, r) \<Longrightarrow> length r < length s"
    and V': "\<And>s v r n. parseValue m s = Some (v, r) \<Longrightarrow> length s - length r \<le> n \<Longrightarrow>
               parseValue n s = Some (v, r)"
    and M: "\<And>s ms r. parseMembers m s = Some (ms, r) \<Longrightarrow> length r < length s"
    and M': "\<And>s ms r n. parseMembers m s = Some (ms, r) \<Longrightarrow> length s - length r \<le> n \<Longrightarrow>
               parseMembers n s = Some (ms, r)"
    and E: "\<And>s vs r. parseElements m s = Some (vs, r) \<Longrightarrow> length r < length s"
    and E': "\<And>s vs r n. parseElements m s = Some (vs, r) \<Longrightarrow> length s - length r \<le> n \<Longrightarrow>
               parseElements n s = Some (vs, r)"
    by blast+
  have atoms: "length r < length s \<and>
      (\<forall>n. length s - length r \<le> n \<longrightarrow> parseValue n s = Some (v, r))"
    if a: "parseValue (Suc m) s = Some (v, r)" for s v r
  proof -
    from a obtain c cs where s: "s = c # cs"
      by (cases s) (simp_all add: parseValue.simps)
    consider (leaf) "c \<noteq> 123" "c \<noteq> 91" | (obj) "c = 123" | (arr) "c = 91" by blast
    then show ?thesis
    proof cases
      case leaf
      from parseValue_leaf_length [OF leaf a [unfolded s]]
      have l: "length r < length s" by (simp add: s)
      have "parseValue n s = Some (v, r)" if "length s - length r \<le> n" for n
      proof -
        from that l obtain n' where "n = Suc n'" by (cases n) simp_all
        with a show ?thesis
          using parseValue_leaf [OF leaf, of m cs] parseValue_leaf [OF leaf, of n' cs]
          by (simp add: s)
      qed
      with l show ?thesis by blast
    next
      case obj
      from a obtain d r0 where d: "skipSpace cs = d # r0"
        by (cases "skipSpace cs") (simp_all add: parseValue.simps s obj)
      from d have l0: "length r0 < length cs" by (rule skipSpace_Cons_length)
      show ?thesis
      proof (cases "d = 125")
        case True
        with a have vr: "v = JObject []" "r = r0"
          by (simp_all add: parseValue.simps s obj d)
        have "parseValue n s = Some (v, r)" if "length s - length r \<le> n" for n
        proof -
          from that l0 vr obtain n' where "n = Suc n'" by (cases n) (simp_all add: s)
          then show ?thesis by (simp add: parseValue.simps s obj d True vr)
        qed
        with l0 vr show ?thesis by (simp add: s)
      next
        case False
        with a obtain ms where ms: "parseMembers m (d # r0) = Some (ms, r)"
          and v: "v = JObject (fold (\<lambda>(k, v) obj. setProp obj k v) ms [])"
          by (auto simp: parseValue.simps s obj d)
        from M [OF ms] have l: "length r < length (d # r0)" .
        from d have le: "length (d # r0) \<le> length cs"
          using length_skipSpace [of cs] by simp
        have "parseValue n s = Some (v, r)" if "length s - length r \<le> n" for n
        proof -
          from that l le obtain n' where n: "n = Suc n'" by (cases n) (simp_all add: s)
          from that l le have "length (d # r0) - length r \<le> n'" by (simp add: s n)
          from M' [OF ms this] show ?thesis
            by (simp add: parseValue.simps s obj d False v n)
        qed
        with l le show ?thesis by (simp add: s)
      qed
    next
      case arr
      from a obtain d r0 where d: "skipSpace cs = d # r0"
        by (cases "skipSpace cs") (simp_all add: parseValue.simps s arr)
      from d have l0: "length r0 < length cs" by (rule skipSpace_Cons_length)
      show ?thesis
      proof (cases "d = 93")
        case True
        with a have vr: "v = JArray []" "r = r0"
          by (simp_all add: parseValue.simps s arr d)
        have "parseValue n s = Some (v, r)" if "length s - length r \<le> n" for n
        proof -
          from that l0 vr obtain n' where "n = Suc n'" by (cases n) (simp_all add: s)
          then show ?thesis by (simp add: parseValue.simps s arr d True vr)
        qed
        with l0 vr show ?thesis by (simp add: s)
      next
        case False
        with a obtain vs where vs: "parseElements m (d # r0) = Some (vs, r)"
          and v: "v = JArray vs"
          by (auto simp: parseValue.simps s arr d)
        from E [OF vs] have l: "length r < length (d # r0)" .
        from d have le: "length (d # r0) \<le> length cs"
          using length_skipSpace [of cs] by simp
        have "parseValue n s = Some (v, r)" if "length s - length r \<le> n" for n
        proof -
          from that l le obtain n' where n: "n = Suc n'" by (cases n) (simp_all add: s)
          from that l le have "length (d # r0) - length r \<le> n'" by (simp add: s n)
          from E' [OF vs this] show ?thesis
            by (simp add: parseValue.simps s arr d False v n)
        qed
        with l le show ?thesis by (simp add: s)
      qed
    qed
  qed
  have members: "length r < length s \<and>
      (\<forall>n. length s - length r \<le> n \<longrightarrow> parseMembers n s = Some (ms, r))"
    if a: "parseMembers (Suc m) s = Some (ms, r)" for s ms r
  proof -
    from parseMembers_Suc_Some [OF a] obtain cs k r1 r2 v r3 e r4 where
      s: "s = 34 # cs" and k: "parseChars cs = Some (k, r1)" and c: "skipSpace r1 = 58 # r2"
      and pv: "parseValue m (skipSpace r2) = Some (v, r3)" and e: "skipSpace r3 = e # r4"
      and alt: "e = 125 \<and> ms = [(k, v)] \<and> r = r4 \<or>
                e = 44 \<and> (\<exists>ms'. parseMembers m (skipSpace r4) = Some (ms', r) \<and> ms = (k, v) # ms')"
      by blast
    note l1 = parseChars_length [OF k] and l2 = skipSpace_Cons_length [OF c]
      and l3 = length_skipSpace [of r2] and l4 = V [OF pv] and l5 = skipSpace_Cons_length [OF e]
    from alt show ?thesis
    proof (elim disjE conjE exE)
      assume last: "e = 125" "ms = [(k, v)]" "r = r4"
      have "parseMembers n s = Some (ms, r)" if "length s - length r \<le> n" for n
      proof -
        from that l1 l2 l3 l4 l5 last obtain n' where n: "n = Suc n'"
          by (cases n) (simp_all add: s)
        from that l1 l2 l3 l4 l5 last have "length (skipSpace r2) - length r3 \<le> n'"
          by (simp add: s n)
        from V' [OF pv this] show ?thesis
          by (simp add: parseMembers.simps s k c e last n)
      qed
      with l1 l2 l3 l4 l5 last show ?thesis by (simp add: s)
    next
      fix ms'
      assume more: "e = 44" "parseMembers m (skipSpace r4) = Some (ms', r)" "ms = (k, v) # ms'"
      note l6 = M [OF more(2)] and l7 = length_skipSpace [of r4]
      have "parseMembers n s = Some (ms, r)" if "length s - length r \<le> n" for n
      proof -
        from that l1 l2 l3 l4 l5 l6 l7 obtain n' where n: "n = Suc n'"
          by (cases n) (simp_all add: s)
        from that l1 l2 l3 l4 l5 l6 l7 have "length (skipSpace r2) - length r3 \<le> n'"
          and "length (skipSpace r4) - length r \<le> n'"
          by (simp_all add: s n)
        from V' [OF pv this(1)] M' [OF more(2) this(2)] show ?thesis
          by (simp add: parseMembers.simps s k c e more n)
      qed
      with l1 l2 l3 l4 l5 l6 l7 show ?thesis by (simp add: s)
    qed
  qed
  have elements: "length r < length s \<and>
      (\<forall>n. length s - length r \<le> n \<longrightarrow> parseElements n s = Some (vs, r))"
    if a: "parseElements (Suc m) s = Some (vs, r)" for s vs r
  proof -
    from parseElements_Suc_Some [OF a] obtain v r1 e r2 where
      pv: "parseValue m (skipSpace s) = Some (v, r1)" and e: "skipSpace r1 = e # r2"
      and alt: "e = 93 \<and> vs = [v] \<and> r = r2 \<or>
                e = 44 \<and> (\<exists>vs'. parseElements m r2 = Some (vs', r) \<and> vs = v # vs')"
      by blast
    note l1 = length_skipSpace [of s] and l2 = V [OF pv] and l3 = skipSpace_Cons_length [OF e]
    from alt show ?thesis
    proof (elim disjE conjE exE)
      assume last: "e = 93" "vs = [v]" "r = r2"
      have "parseElements n s = Some (vs, r)" if "length s - length r \<le> n" for n
      proof -
        from that l1 l2 l3 last obtain n' where n: "n = Suc n'"
          by (cases n) simp_all
        from that l1 l2 l3 last have "length (skipSpace s) - length r1 \<le> n'"
          by (simp add: n)
        from V' [OF pv this] show ?thesis
          by (simp add: parseElements.simps e last n)
      qed
      with l1 l2 l3 last show ?thesis by simp
    next
      fix vs'
      assume more: "e = 44" "parseElements m r2 = Some (vs', r)" "vs = v # vs'"
      note l4 = E [OF more(2)]
      have "parseElements n s = Some (vs, r)" if "length s - length r \<le> n" for n
      proof -
        from that l1 l2 l3 l4 obtain n' where n: "n = Suc n'"
          by (cases n) simp_all
        from that l1 l2 l3 l4 have "length (skipSpace s) - length r1 \<le> n'"
          and "length r2 - length r \<le> n'"
          by (simp_all add: n)
        from V' [OF pv this(1)] E' [OF more(2) this(2)] show ?thesis
          by (simp add: parseElements.simps e more n)
      qed
      with l1 l2 l3 l4 show ?thesis by simp
    qed
  qed
  from atoms members elements show ?case by blast
qed


lemma parseValue_fuel:
  assumes "parseValue m s = Some (v, r)" and "length s \<le> n"
  shows "parseValue n s = Some (v, r)"
proof -
  from assms(2) have "length s - length r \<le> n" by simp
  with parse_consumes [of m] assms(1) show ?thesis by blast
qed

lemma JSON_parse_fuel:
  assumes "length s < n"
  shows "JSON_parse s =
     (case parseValue n (skipSpace s) of
        None \<Rightarrow> None
      | Some (v, rest) \<Rightarrow> if skipSpace rest = [] then Some v else None)"
proof -
  have l: "length (skipSpace s) \<le> length s" by (rule length_skipSpace)
  have "parseValue (Suc (length s)) (skipSpace s) = parseValue n (skipSpace s)"
  proof (cases "parseValue n (skipSpace s)")
    case None
    show ?thesis
    proof (cases "parseValue (Suc (length s)) (skipSpace s)")
      case inner: None
      with None show ?thesis by simp
    next
      case (Some x)
      obtain v r where "x = (v, r)" by (cases x)
      with Some have "parseValue (Suc (length s)) (skipSpace s) = Some (v, r)" by simp
      from parseValue_fuel [OF this, of n] l assms
      have "parseValue n (skipSpace s) = Some (v, r)" by simp
      with None show ?thesis by simp
    qed
  next
    case (Some x)
    obtain v r where "x = (v, r)" by (cases x)
    with Some have "parseValue n (skipSpace s) = Some (v, r)" by simp
    from parseValue_fuel [OF this, of "Suc (length s)"] l
    have "parseValue (Suc (length s)) (skipSpace s) = Some (v, r)" by simp
    with Some \<open>x = (v, r)\<close> show ?thesis by simp
  qed
  then show ?thesis by (simp add: JSON_parse_def)
qed

section \<open>Properties of the extractor\<close>

lemma hexValue_hexDigit: "v < 16 \<Longrightarrow> hexValue (hexDigit v) = Some v"
  by (auto simp: hexValue_def hexDigit_def)

lemma hex_decompose:
  fixes u :: nat
  assumes "u < 65536"
  shows "4096 * (u div 4096 mod 16) + 256 * (u div 256 mod 16) + 16 * (u div 16 mod 16) +
         u mod 16 = u"
proof -
  have a: "u div 16 div 16 = u div 256" "u div 256 div 16 = u div 4096"
    by (simp_all add: div_mult2_eq [symmetric])
  have 1: "u = 16 * (u div 16) + u mod 16" by simp
  have 2: "u div 16 = 16 * (u div 256) + u div 16 mod 16"
    using mult_div_mod_eq [of 16 "u div 16"] a by simp
  have 3: "u div 256 = 16 * (u div 4096) + u div 256 mod 16"
    using mult_div_mod_eq [of 16 "u div 256"] a by simp
  have 4: "u div 4096 mod 16 = u div 4096"
    using assms by simp
  show ?thesis using 1 2 3 4 by linarith
qed

lemma hex4_unicodeEscape:
  assumes "u < 65536"
  shows "hex4 (hexDigit (u div 4096 mod 16)) (hexDigit (u div 256 mod 16))
           (hexDigit (u div 16 mod 16)) (hexDigit (u mod 16)) = Some u"
  unfolding hex4_def
  by (simp only: hexValue_hexDigit mod_less_divisor zero_less_numeral prod.case option.case
      hex_decompose [OF assms])

lemma parseChars_quote: "parseChars (34 # rest) = Some ([], rest)"
  by (simp add: parseChars.simps)

lemma parseChars_plain:
  "c \<noteq> 34 \<Longrightarrow> c \<noteq> 92 \<Longrightarrow> \<not> c < 32 \<Longrightarrow> parseChars (c # cs) = consChar c (parseChars cs)"
  by (simp add: parseChars.simps)

lemma parseChars_simple:
  "simpleEscape e = Some u \<Longrightarrow> e \<noteq> 117 \<Longrightarrow>
   parseChars (92 # e # cs) = consChar u (parseChars cs)"
  by (simp add: parseChars.simps)

lemma parseChars_unicode:
  "hex4 h1 h2 h3 h4 = Some u \<Longrightarrow>
   parseChars (92 # 117 # h1 # h2 # h3 # h4 # cs) = consChar u (parseChars cs)"
  by (simp add: parseChars.simps)

lemma parseChars_unicodeEscape:
  assumes "u < 65536"
  shows "parseChars (unicodeEscape u @ rest) = consChar u (parseChars rest)"
  unfolding unicodeEscape_def append_Cons append_Nil
  by (rule parseChars_unicode) (rule hex4_unicodeEscape [OF assms])

lemma escapeUnit_cases:
  obtains (short) e where "escapeUnit c = [92, e]" "simpleEscape e = Some c" "e \<noteq> 117"
  | (unicode) "escapeUnit c = unicodeEscape c" "c < 65536" "c \<noteq> 34" "c \<noteq> 92"
  | (plain) "escapeUnit c = [c]" "c \<noteq> 34" "c \<noteq> 92" "\<not> c < 32"
proof -
  consider "c = 8" | "c = 9" | "c = 10" | "c = 12" | "c = 13" | "c = 34" | "c = 92"
    | "c \<notin> {8, 9, 10, 12, 13, 34, 92}" "c < 32 \<or> isLeadSurrogate c \<or> isTrailSurrogate c"
    | "c \<notin> {8, 9, 10, 12, 13, 34, 92}" "\<not> (c < 32 \<or> isLeadSurrogate c \<or> isTrailSurrogate c)"
    by blast
  then show thesis
  proof cases
    case 1
    then show ?thesis by (intro short [of 98]) (simp_all add: escapeUnit_def simpleEscape_def)
  next
    case 2
    then show ?thesis by (intro short [of 116]) (simp_all add: escapeUnit_def simpleEscape_def)
  next
    case 3
    then show ?thesis by (intro short [of 110]) (simp_all add: escapeUnit_def simpleEscape_def)
  next
    case 4
    then show ?thesis by (intro short [of 102]) (simp_all add: escapeUnit_def simpleEscape_def)
  next
    case 5
    then show ?thesis by (intro short [of 114]) (simp_all add: escapeUnit_def simpleEscape_def)
  next
    case 6
    then show ?thesis by (intro short [of 34]) (simp_all add: escapeUnit_def simpleEscape_def)
  next
    case 7
    then show ?thesis by (intro short [of 92]) (simp_all add: escapeUnit_def simpleEscape_def)
  next
    case 8
    then have "escapeUnit c = unicodeEscape c" "c < 65536" "c \<noteq> 34" "c \<noteq> 92"
      by (auto simp: escapeUnit_def isLeadSurrogate_def isTrailSurrogate_def)
    then show ?thesis by (rule unicode)
  next
    case 9
    then have "escapeUnit c = [c]" "c \<noteq> 34" "c \<noteq> 92" "\<not> c < 32"
      by (auto simp: escapeUnit_def)
    then show ?thesis by (rule plain)
  qed
qed

lemma parseChars_escapeUnit:
  "parseChars (escapeUnit c @ rest) = consChar c (parseChars rest)"
proof (cases c rule: escapeUnit_cases)
  case (short e)
  then show ?thesis by (simp add: parseChars_simple [of e c])
next
  case unicode
  then show ?thesis by (simp add: parseChars_unicodeEscape)
next
  case plain
  then show ?thesis by (simp add: parseChars_plain)
qed

lemma parseChars_quoteChars: "parseChars (quoteChars s @ 34 # rest) = Some (s, rest)"
proof (induction s rule: quoteChars.induct)
  case 1
  show ?case by (simp add: parseChars_quote)
next
  case (2 c)
  show ?case by (simp add: parseChars_escapeUnit parseChars_quote consChar_def)
next
  case (3 c d cs)
  show ?case
  proof (cases "isLeadSurrogate c \<and> isTrailSurrogate d")
    case True
    then have ih: "parseChars (quoteChars cs @ 34 # rest) = Some (cs, rest)"
      by (rule "3.IH"(1))
    from True have "c \<noteq> 34" "c \<noteq> 92" "\<not> c < 32" "d \<noteq> 34" "d \<noteq> 92" "\<not> d < 32"
      by (auto simp: isLeadSurrogate_def isTrailSurrogate_def)
    with True ih show ?thesis
      by (simp add: parseChars_plain consChar_def)
  next
    case False
    then have ih: "parseChars (quoteChars (d # cs) @ 34 # rest) = Some (d # cs, rest)"
      by (rule "3.IH"(2))
    from False have "quoteChars (c # d # cs) = escapeUnit c @ quoteChars (d # cs)"
      by auto
    then have "parseChars (quoteChars (c # d # cs) @ 34 # rest) =
        consChar c (parseChars (quoteChars (d # cs) @ 34 # rest))"
      by (simp only: append_assoc parseChars_escapeUnit)
    then show ?thesis by (simp only: ih consChar_def) simp
  qed
qed

lemma scanBraces_inString_plain:
  "c \<noteq> 92 \<Longrightarrow> c \<noteq> 34 \<Longrightarrow>
   scanBraces (c # cs) i b True False = scanBraces cs (i + 1) b True False"
  by (simp add: scanBraces.simps)

lemma scanBraces_inString_escape:
  "scanBraces (92 # e # cs) i b True False = scanBraces cs (i + 2) b True False"
  by (simp add: scanBraces.simps)

lemma hexDigit_plain: "hexDigit (x mod 16) \<noteq> 92" "hexDigit (x mod 16) \<noteq> 34"
proof -
  have "x mod 16 < 16" by simp
  then show "hexDigit (x mod 16) \<noteq> 92" "hexDigit (x mod 16) \<noteq> 34"
    unfolding hexDigit_def by (auto split: if_splits)
qed

lemma scanBraces_unicodeEscape:
  "scanBraces (unicodeEscape u @ rest) i b True False =
   scanBraces rest (i + length (unicodeEscape u)) b True False"
  unfolding unicodeEscape_def
  by (simp add: scanBraces_inString_escape scanBraces_inString_plain hexDigit_plain)

lemma scanBraces_escapeUnit:
  "scanBraces (escapeUnit c @ rest) i b True False =
   scanBraces rest (i + length (escapeUnit c)) b True False"
proof (cases c rule: escapeUnit_cases)
  case (short e)
  then show ?thesis by (simp add: scanBraces_inString_escape)
next
  case unicode
  then show ?thesis by (simp only: scanBraces_unicodeEscape)
next
  case plain
  then show ?thesis by (simp add: scanBraces_inString_plain)
qed

lemma scanBraces_quoteChars:
  "scanBraces (quoteChars s @ rest) i b True False =
   scanBraces rest (i + length (quoteChars s)) b True False"
proof (induction s arbitrary: i rule: quoteChars.induct)
  case 1
  show ?case by simp
next
  case (2 c)
  show ?case by (simp add: scanBraces_escapeUnit)
next
  case (3 c d cs)
  show ?case
  proof (cases "isLeadSurrogate c \<and> isTrailSurrogate d")
    case True
    then have ih: "scanBraces (quoteChars cs @ rest) j b True False =
        scanBraces rest (j + length (quoteChars cs)) b True False" for j
      by (rule "3.IH"(1))
    from True have "c \<noteq> 92" "c \<noteq> 34" "d \<noteq> 92" "d \<noteq> 34"
      by (auto simp: isLeadSurrogate_def isTrailSurrogate_def)
    with True show ?thesis by (simp add: scanBraces_inString_plain ih add.assoc)
  next
    case False
    then have ih: "scanBraces (quoteChars (d # cs) @ rest) j b True False =
        scanBraces rest (j + length (quoteChars (d # cs))) b True False" for j
      by (rule "3.IH"(2))
    from False have q: "quoteChars (c # d # cs) = escapeUnit c @ quoteChars (d # cs)"
      by auto
    show ?thesis
      by (simp only: q append_assoc scanBraces_escapeUnit ih length_append add.assoc)
  qed
qed

lemma scanBraces_open_quote:
  "scanBraces (34 # cs) i b False False = scanBraces cs (i + 1) b True False"
  by (simp add: scanBraces.simps)

lemma scanBraces_close_quote:
  "scanBraces (34 # cs) i b True False = scanBraces cs (i + 1) b False False"
  by (simp add: scanBraces.simps)

lemma scanBraces_quoteJSONString:
  "scanBraces (quoteJSONString s @ rest) i b False False =
   scanBraces rest (i + length (quoteJSONString s)) b False False"
  by (simp add: quoteJSONString_def scanBraces_open_quote scanBraces_quoteChars
      scanBraces_close_quote add.assoc)

lemma JSON_stringify_members: "JSON_stringify obj = 123 # membersText obj @ [125]"
proof -
  have "(\<lambda>(k, v). quoteJSONString k @ 58 # quoteJSONString v) = memberText"
    by (auto simp: memberText_def fun_eq_iff)
  then show ?thesis by (simp add: JSON_stringify_def membersText_def)
qed

lemma membersText_Cons:
  "membersText (kv # obj) =
   memberText kv @ (if obj = [] then [] else 44 # membersText obj)"
  by (cases obj) (simp_all add: membersText_def)

lemma memberText_Cons: "memberText kv = 34 # tl (memberText kv)"
  by (simp add: memberText_def quoteJSONString_def)

lemma membersText_starts_quote: "obj \<noteq> [] \<Longrightarrow> membersText obj = 34 # tl (membersText obj)"
  by (cases obj) (simp_all add: membersText_Cons memberText_def quoteJSONString_def)

lemma length_memberText: "5 \<le> length (memberText kv)"
  by (simp add: memberText_def quoteJSONString_def)

lemma length_membersText: "length obj \<le> length (membersText obj)"
proof (induction obj)
  case Nil
  show ?case by simp
next
  case (Cons kv obj)
  then show ?case
    using length_memberText [of kv] by (simp add: membersText_Cons)
qed

lemma scanBraces_neutral:
  "c \<noteq> 123 \<Longrightarrow> c \<noteq> 125 \<Longrightarrow> c \<noteq> 34 \<Longrightarrow>
   scanBraces (c # cs) i b False False = scanBraces cs (i + 1) b False False"
  by (simp add: scanBraces.simps)

lemma scanBraces_memberText:
  "scanBraces (memberText kv @ rest) i b False False =
   scanBraces rest (i + length (memberText kv)) b False False"
  by (simp add: memberText_def scanBraces_quoteJSONString scanBraces_neutral add.assoc)

lemma scanBraces_membersText:
  "scanBraces (membersText obj @ rest) i b False False =
   scanBraces rest (i + length (membersText obj)) b False False"
proof (induction obj arbitrary: i)
  case Nil
  show ?case by (simp add: membersText_def)
next
  case (Cons kv obj)
  show ?case
    by (cases "obj = []")
      (simp_all add: membersText_Cons scanBraces_memberText scanBraces_neutral Cons.IH add.assoc)
qed

lemma scanBraces_JSON_stringify:
  "scanBraces (JSON_stringify obj @ rest) i 0 False False = Some (i + length (JSON_stringify obj))"
proof -
  have "scanBraces (123 # cs) i 0 False False = scanBraces cs (i + 1) 1 False False" for cs
    by (simp add: scanBraces.simps)
  moreover have "scanBraces (125 # cs) j 1 False False = Some (j + 1)" for cs j
    by (simp add: scanBraces.simps)
  ultimately show ?thesis
    by (simp add: JSON_stringify_members scanBraces_membersText)
qed

lemma skipSpace_nonspace: "\<not> isJsonSpace c \<Longrightarrow> skipSpace (c # cs) = c # cs"
  by (simp add: skipSpace_def)

lemma nonspace_punctuation:
  "\<not> isJsonSpace 34" "\<not> isJsonSpace 58" "\<not> isJsonSpace 44" "\<not> isJsonSpace 125"
  "\<not> isJsonSpace 123"
  by (simp_all add: isJsonSpace_def)

lemma skipSpace_quoteJSONString:
  "skipSpace (quoteJSONString s @ rest) = quoteJSONString s @ rest"
  by (simp add: quoteJSONString_def skipSpace_nonspace nonspace_punctuation)

lemma parseValue_quoteJSONString:
  "parseValue (Suc n) (quoteJSONString s @ rest) = Some (JString s, rest)"
  by (simp add: parseValue.simps quoteJSONString_def parseChars_quoteChars)

lemma parseMembers_membersText:
  "obj \<noteq> [] \<Longrightarrow> length obj < n \<Longrightarrow>
   parseMembers n (membersText obj @ 125 # rest) = Some (parsedMembers obj, rest)"
proof (induction obj arbitrary: n)
  case Nil
  then show ?case by simp
next
  case (Cons kv obj)
  from Cons.prems obtain m where n: "n = Suc (Suc m)" and m: "length obj \<le> m"
    by (cases n; cases "n - 1") auto
  obtain k v where kv: "kv = (k, v)" by (cases kv)
  have key: "parseChars (quoteChars k @ 34 # cs) = Some (k, cs)" for cs
    by (rule parseChars_quoteChars)
  show ?case
  proof (cases "obj = []")
    case True
    then show ?thesis
      unfolding n kv
      by (subst parseMembers.simps)
        (simp add: membersText_Cons memberText_def key skipSpace_nonspace nonspace_punctuation
          parseValue_quoteJSONString skipSpace_quoteJSONString parsedMembers_def
          quoteJSONString_def [of k])
  next
    case False
    then have ih: "parseMembers (Suc m) (membersText obj @ 125 # rest) =
        Some (parsedMembers obj, rest)"
      using m by (intro Cons.IH) simp_all
    from False obtain t where t: "membersText obj = 34 # t"
      using membersText_starts_quote [of obj] by blast
    have sk: "skipSpace (membersText obj @ 125 # rest) = membersText obj @ 125 # rest"
      by (simp add: t skipSpace_nonspace nonspace_punctuation)
    from False show ?thesis
      unfolding n kv
      by (subst parseMembers.simps)
        (simp add: membersText_Cons memberText_def key skipSpace_nonspace nonspace_punctuation
          parseValue_quoteJSONString skipSpace_quoteJSONString sk ih parsedMembers_def
          quoteJSONString_def [of k])
  qed
qed

lemma setProp_fresh: "k \<notin> fst ` set obj \<Longrightarrow> setProp obj k v = obj @ [(k, v)]"
  by (induction obj) auto

lemma fold_setProp_distinct:
  "distinct (map fst (acc @ ms)) \<Longrightarrow>
   fold (\<lambda>(k, v) obj. setProp obj k v) ms acc = acc @ ms"
proof (induction ms arbitrary: acc)
  case Nil
  show ?case by simp
next
  case (Cons m ms)
  obtain k v where m: "m = (k, v)" by (cases m)
  from Cons.prems have "k \<notin> fst ` set acc" by (auto simp: m)
  then have "setProp acc k v = acc @ [m]" by (simp add: setProp_fresh m)
  moreover from Cons.prems have "distinct (map fst ((acc @ [m]) @ ms))" by simp
  ultimately show ?case using Cons.IH [of "acc @ [m]"] by (simp add: m)
qed

lemma keys_parsedMembers: "map fst (parsedMembers obj) = keys obj"
  by (simp add: parsedMembers_def keys_def)

lemma JSON_parse_JSON_stringify:
  assumes "distinct (keys obj)"
  shows "JSON_parse (JSON_stringify obj) = Some (JObject (parsedMembers obj))"
proof (cases "obj = []")
  case True
  then show ?thesis
    by (simp add: JSON_parse_def JSON_stringify_members membersText_def parsedMembers_def
        skipSpace_nonspace nonspace_punctuation parseValue.simps) (simp add: skipSpace_def)
next
  case False
  let ?n = "length (JSON_stringify obj)"
  have len: "length obj < ?n"
    using length_membersText [of obj] by (simp add: JSON_stringify_members)
  from False obtain t where t: "membersText obj = 34 # t"
    using membersText_starts_quote [of obj] by blast
  have "parseValue (Suc ?n) (123 # membersText obj @ [125]) =
      map_option (\<lambda>(ms, rest). (JObject (fold (\<lambda>(k, v) obj. setProp obj k v) ms []), rest))
        (parseMembers ?n (membersText obj @ [125]))"
    by (subst parseValue.simps) (simp add: t skipSpace_nonspace nonspace_punctuation)
  also have "parseMembers ?n (membersText obj @ [125]) = Some (parsedMembers obj, [])"
    using False len by (rule parseMembers_membersText)
  finally have "parseValue (Suc ?n) (JSON_stringify obj) =
      Some (JObject (fold (\<lambda>(k, v) obj. setProp obj k v) (parsedMembers obj) []), [])"
    by (simp add: JSON_stringify_members)
  moreover have "fold (\<lambda>(k, v) obj. setProp obj k v) (parsedMembers obj) [] = parsedMembers obj"
    using fold_setProp_distinct [of "[]" "parsedMembers obj"] assms
    by (simp add: keys_parsedMembers)
  moreover have "skipSpace (JSON_stringify obj) = JSON_stringify obj"
    by (simp add: JSON_stringify_members skipSpace_nonspace nonspace_punctuation)
  ultimately show ?thesis
    by (simp add: JSON_parse_def skipSpace_def)
qed

lemma fold_assignFile:
  "distinct (map fst acc @ keys obj) \<Longrightarrow> js ''__proto__'' \<notin> set (keys obj) \<Longrightarrow>
   fold (assignFile rt) (parsedMembers obj) acc = acc @ obj"
proof (induction obj arbitrary: acc)
  case Nil
  show ?case by (simp add: parsedMembers_def)
next
  case (Cons kv obj)
  obtain k v where kv: "kv = (k, v)" by (cases kv)
  from Cons.prems have "k \<notin> fst ` set acc" "k \<noteq> js ''__proto__''"
    by (auto simp: kv keys_def)
  then have "assignFile rt (k, JString v) acc = acc @ [kv]"
    by (simp add: assignFile_def setProp_fresh kv)
  moreover from Cons.prems have "distinct (map fst (acc @ [kv]) @ keys obj)"
    "js ''__proto__'' \<notin> set (keys obj)"
    by (auto simp: keys_def)
  ultimately show ?case
    using Cons.IH [of "acc @ [kv]"] by (simp add: parsedMembers_def kv)
qed

lemma extract_of_candidate:
  assumes "candidateText text = JSON_stringify obj"
    and "obj \<noteq> []" "distinct (keys obj)" "js ''__proto__'' \<notin> set (keys obj)"
  shows "extractAndParseJSON rt text = Inr obj"
proof -
  have "fold (assignFile rt) (parsedMembers obj) [] = obj"
    using fold_assignFile [of "[]" obj rt] assms(3,4) by simp
  with assms(1,2) show ?thesis
    by (simp add: extractAndParseJSON_def JSON_parse_JSON_stringify [OF assms(3)] isObject_def
        entries_def)
qed

lemma indexOf_first:
  assumes "prefix pat b"
    and "\<And>d. d \<noteq> [] \<Longrightarrow> suffix d a \<Longrightarrow> \<not> prefix pat (d @ b)"
  shows "indexOf pat (a @ b) = Some (length a)"
  using assms(2)
proof (induction a)
  case Nil
  from assms(1) show ?case by (cases b) simp_all
next
  case (Cons x a)
  have "\<not> prefix pat ((x # a) @ b)"
    by (rule Cons.prems) simp_all
  moreover have "indexOf pat (a @ b) = Some (length a)"
  proof (rule Cons.IH)
    fix d assume "d \<noteq> []" "suffix d a"
    then show "\<not> prefix pat (d @ b)"
      by (intro Cons.prems) (simp_all add: suffix_Cons)
  qed
  ultimately show ?case by simp
qed

lemma indexOf_Some_sublist: "indexOf pat t = Some i \<Longrightarrow> sublist pat t"
proof (induction t arbitrary: i)
  case Nil
  then show ?case by (simp split: if_splits)
next
  case (Cons c cs)
  show ?case
  proof (cases "prefix pat (c # cs)")
    case True
    then show ?thesis by (rule prefix_imp_sublist)
  next
    case False
    with Cons.prems obtain j where "indexOf pat cs = Some j" by auto
    then have "sublist pat cs" by (rule Cons.IH)
    then show ?thesis by (simp add: sublist_Cons_right)
  qed
qed

lemma sublist_indexOf: "sublist pat t \<Longrightarrow> \<exists>i. indexOf pat t = Some i"
proof (induction t)
  case Nil
  then show ?case by simp
next
  case (Cons c cs)
  show ?case
  proof (cases "prefix pat (c # cs)")
    case True
    then show ?thesis by simp
  next
    case False
    with Cons.prems have "sublist pat cs"
      by (simp add: sublist_Cons_right)
    then show ?thesis using Cons.IH False by auto
  qed
qed

lemma indexOf_None_iff: "indexOf pat t = None \<longleftrightarrow> \<not> sublist pat t"
  using indexOf_Some_sublist [of pat t] sublist_indexOf [of pat t]
  by (cases "indexOf pat t") auto

lemma indexOf_brace:
  assumes "123 \<notin> set pre"
  shows "indexOf [123] (pre @ 123 # rest) = Some (length pre)"
proof (rule indexOf_first)
  show "prefix [123] (123 # rest)" by simp
next
  fix d :: jsstring assume d: "d \<noteq> []" "suffix d pre"
  show "\<not> prefix [123] (d @ 123 # rest)"
  proof
    assume "prefix [123] (d @ 123 # rest)"
    with d(1) have "hd d = 123" by (cases d) simp_all
    with d(1) have "123 \<in> set d" by (metis hd_in_set)
    with d(2) assms show False by (auto simp: suffix_def)
  qed
qed

lemma fence_eq: "fence = [96, 96, 96]"
  by (simp add: fence_def js_def)

lemma fenceJson_eq: "fenceJson = [96, 96, 96, 106, 115, 111, 110]"
  by (simp add: fenceJson_def js_def)

lemma not_isSpace_punctuation: "\<not> isSpace 96" "\<not> isSpace 123" "\<not> isSpace 125"
  by (simp_all add: isSpace_def)

lemma stripFences_id: "\<not> sublist fence s \<Longrightarrow> stripFences s = s"
proof (induction s)
  case Nil
  show ?case by simp
next
  case (Cons c cs)
  have 1: "\<not> prefix fence (c # cs)"
    using Cons.prems prefix_imp_sublist by blast
  have "prefix fence fenceJson" by (simp add: fence_eq fenceJson_eq)
  with 1 have 2: "\<not> prefix fenceJson (c # cs)"
    by (meson prefix_order.order_trans)
  from Cons.prems have cs: "\<not> sublist fence cs"
    by (simp add: sublist_Cons_right)
  then have "\<not> prefix fence cs" using prefix_imp_sublist by blast
  then have 3: "\<not> prefix (10 # fence) (c # cs)" by simp
  show ?case
    by (simp only: stripFences.simps 1 2 3 if_False Cons.IH [OF cs])
qed

lemma JSON_stringify_ends:
  "\<exists>m. JSON_stringify obj = 123 # m @ [125]"
  by (simp add: JSON_stringify_members)

lemma trim_JSON_stringify: "trim (JSON_stringify obj) = JSON_stringify obj"
  by (simp add: JSON_stringify_members trim_def not_isSpace_punctuation)

lemma length_JSON_stringify: "0 < length (JSON_stringify obj)"
  by (simp add: JSON_stringify_members)

lemma braceCandidate_prose:
  assumes "123 \<notin> set pre"
  shows "braceCandidate (pre @ JSON_stringify obj @ post) = JSON_stringify obj"
proof -
  obtain m where m: "JSON_stringify obj = 123 # m @ [125]"
    using JSON_stringify_ends by blast
  have "indexOf [123] (pre @ JSON_stringify obj @ post) = Some (length pre)"
    unfolding m using indexOf_brace [OF assms] by simp
  moreover have "scanBraces (JSON_stringify obj @ post) (length pre) 0 False False =
      Some (length pre + length (JSON_stringify obj))"
    by (rule scanBraces_JSON_stringify)
  ultimately show ?thesis
    using length_JSON_stringify [of obj] by (simp add: braceCandidate_def)
qed

lemma candidateText_prose:
  assumes "123 \<notin> set pre"
    and "codeBlockMatch (pre @ JSON_stringify obj @ post) = None"
    and "indexOf fence (JSON_stringify obj) = None"
  shows "candidateText (pre @ JSON_stringify obj @ post) = JSON_stringify obj"
  using assms
  by (simp add: candidateText_def braceCandidate_prose stripFences_id indexOf_None_iff
      trim_JSON_stringify)

lemma codeBlockMatch_bare:
  assumes "indexOf fence s = None"
  shows "codeBlockMatch s = None"
proof -
  have "prefix fence fenceJson" by (simp add: fence_eq fenceJson_eq)
  then have "sublist fence fenceJson" by (rule prefix_imp_sublist)
  with assms have "\<not> sublist fenceJson s"
    unfolding indexOf_None_iff sublist_def by (metis append.assoc)
  then show ?thesis by (simp add: codeBlockMatch_def indexOf_None_iff [symmetric])
qed

lemma prefix_nth: "prefix p t \<Longrightarrow> i < length p \<Longrightarrow> t ! i = p ! i"
  by (auto simp: prefix_def nth_append)

lemma prefix_of_long: "prefix p (d @ x) \<Longrightarrow> length p \<le> length d \<Longrightarrow> prefix p d"
  by (auto simp: prefix_def append_eq_append_conv2)

lemma suffix_sublist_trans: "sublist p d \<Longrightarrow> suffix d a \<Longrightarrow> sublist p a"
  by (auto simp: sublist_def suffix_def) (metis append.assoc)

lemma indexOf_fenceJson:
  assumes "indexOf fenceJson pre = None"
  shows "indexOf fenceJson (pre @ fenceJson @ rest) = Some (length pre)"
proof (rule indexOf_first)
  show "prefix fenceJson (fenceJson @ rest)" by simp
next
  fix d :: jsstring assume d: "d \<noteq> []" "suffix d pre"
  show "\<not> prefix fenceJson (d @ fenceJson @ rest)"
  proof
    assume p: "prefix fenceJson (d @ fenceJson @ rest)"
    show False
    proof (cases "7 \<le> length d")
      case True
      then have "prefix fenceJson d"
        by (intro prefix_of_long [OF p]) (simp add: fenceJson_eq)
      then have "sublist fenceJson d" by (rule prefix_imp_sublist)
      then have "sublist fenceJson pre"
        using d(2) by (rule suffix_sublist_trans)
      with assms show False by (simp add: indexOf_None_iff)
    next
      case False
      let ?t = "d @ fenceJson @ rest"
      have n: "?t ! i = fenceJson ! i" if "i < 7" for i
        using that by (intro prefix_nth [OF p]) (simp add: fenceJson_eq)
      from d(1) have "0 < length d" by simp
      with False consider "length d = 1" | "length d = 2" | "length d = 3"
        | "length d = 4" | "length d = 5" | "length d = 6"
        by arith
      then show False
      proof cases
        case 1 with n [of 1] n [of 3] show False by (simp add: nth_append fenceJson_eq)
      next
        case 2 with n [of 2] n [of 3] show False by (simp add: nth_append fenceJson_eq)
      next
        case 3 with n [of 3] show False by (simp add: nth_append fenceJson_eq)
      next
        case 4 with n [of 4] show False by (simp add: nth_append fenceJson_eq)
      next
        case 5 with n [of 5] show False by (simp add: nth_append fenceJson_eq)
      next
        case 6 with n [of 6] show False by (simp add: nth_append fenceJson_eq)
      qed
    qed
  qed
qed

lemma no_fence_with_spaces:
  assumes "indexOf fence s = None" and "\<forall>c \<in> set ws. isSpace c"
  shows "\<not> sublist fence (s @ ws)"
proof
  assume "sublist fence (s @ ws)"
  then consider "sublist fence s" | "sublist fence ws"
    | xs1 xs2 where "fence = xs1 @ xs2" "suffix xs1 s" "prefix xs2 ws"
    by (auto simp: sublist_append)
  then show False
  proof cases
    case 1
    with assms(1) show False by (simp add: indexOf_None_iff)
  next
    case 2
    then have "96 \<in> set ws"
      by (auto simp: sublist_def fence_eq)
    with assms(2) show False by (auto simp: not_isSpace_punctuation)
  next
    case 3
    show False
    proof (cases "xs2 = []")
      case True
      with 3 have "sublist fence s" by (auto simp: suffix_def)
      with assms(1) show False by (simp add: indexOf_None_iff)
    next
      case False
      with 3(1) have "hd xs2 = 96"
        by (cases xs2) (auto simp: fence_eq append_eq_Cons_conv Cons_eq_append_conv)
      moreover from False 3(3) have "hd xs2 \<in> set ws"
        by (cases xs2) (auto simp: prefix_def)
      ultimately show False using assms(2) by (auto simp: not_isSpace_punctuation)
    qed
  qed
qed

lemma indexOf_closing_fence:
  assumes "indexOf fence s = None" and "\<forall>c \<in> set ws. isSpace c"
    and "s \<noteq> []" "last s = 125"
  shows "indexOf fence ((s @ ws) @ fence @ post) = Some (length (s @ ws))"
proof (rule indexOf_first)
  show "prefix fence (fence @ post)" by simp
next
  fix d :: jsstring assume d: "d \<noteq> []" "suffix d (s @ ws)"
  have l: "last (s @ ws) \<noteq> 96"
  proof (cases "ws = []")
    case True
    with assms(3,4) show ?thesis by simp
  next
    case False
    then have "last ws \<in> set ws" by (rule last_in_set)
    with assms(2) have "isSpace (last ws)" by blast
    with False show ?thesis by (auto simp: not_isSpace_punctuation)
  qed
  from d have ld: "last d = last (s @ ws)"
    by (auto simp: suffix_def)
  show "\<not> prefix fence (d @ fence @ post)"
  proof
    assume p: "prefix fence (d @ fence @ post)"
    show False
    proof (cases "3 \<le> length d")
      case True
      then have "prefix fence d"
        by (intro prefix_of_long [OF p]) (simp add: fence_eq)
      then have "sublist fence d" by (rule prefix_imp_sublist)
      then have "sublist fence (s @ ws)"
        using d(2) by (rule suffix_sublist_trans)
      with no_fence_with_spaces [OF assms(1,2)] show False by simp
    next
      case False
      with d(1) have i: "length d - 1 < 3" "length d - 1 < length d" by (cases d; simp)+
      have "(d @ fence @ post) ! (length d - 1) = fence ! (length d - 1)"
        using i(1) by (intro prefix_nth [OF p]) (simp add: fence_eq)
      with i have "d ! (length d - 1) = fence ! (length d - 1)"
        by (simp add: nth_append)
      moreover have "fence ! (length d - 1) = 96"
      proof -
        from i(1) have "length d - 1 = 0 \<or> length d - 1 = 1 \<or> length d - 1 = 2" by arith
        then show ?thesis by (auto simp: fence_eq)
      qed
      ultimately have "last d = 96"
        using d(1) by (simp add: last_conv_nth)
      with ld l show False by simp
    qed
  qed
qed

lemma trimEnd_spaces:
  assumes "\<forall>c \<in> set ws. isSpace c" and "s \<noteq> []" "\<not> isSpace (last s)"
  shows "trimEnd (s @ ws) = s"
proof -
  have "dropWhile isSpace (rev ws @ rev s) = dropWhile isSpace (rev s)"
    using assms(1) by (intro dropWhile_append2) simp
  also have "\<dots> = rev s"
    using assms(2,3) by (cases "rev s") (auto simp: last_rev hd_rev [symmetric])
  finally show ?thesis by (simp add: trimEnd_def)
qed

lemma last_JSON_stringify: "JSON_stringify obj \<noteq> [] \<and> last (JSON_stringify obj) = 125"
  by (simp add: JSON_stringify_members)

lemma codeBlockMatch_fenced:
  assumes "indexOf fenceJson pre = None"
    and "\<forall>c \<in> set ws1. isSpace c" "\<forall>c \<in> set ws2. isSpace c"
    and "indexOf fence (JSON_stringify obj) = None"
  shows "codeBlockMatch (pre @ fenceJson @ ws1 @ JSON_stringify obj @ ws2 @ fence @ post) =
         Some (JSON_stringify obj)"
proof -
  let ?s = "JSON_stringify obj"
  let ?rest = "ws1 @ ?s @ ws2 @ fence @ post"
  obtain m where m: "?s = 123 # m @ [125]"
    using JSON_stringify_ends by blast
  have 1: "indexOf fenceJson (pre @ fenceJson @ ?rest) = Some (length pre)"
    using assms(1) by (rule indexOf_fenceJson)
  have "length fenceJson = 7" by (simp add: fenceJson_eq)
  then have 2: "drop (length pre + 7) (pre @ fenceJson @ ?rest) = ?rest" by simp
  have "dropWhile isSpace ?rest = dropWhile isSpace (?s @ ws2 @ fence @ post)"
    using assms(2) by (intro dropWhile_append2) simp
  also have "\<dots> = (?s @ ws2) @ fence @ post"
    by (simp add: m not_isSpace_punctuation)
  finally have 3: "dropWhile isSpace ?rest = (?s @ ws2) @ fence @ post" .
  have 4: "indexOf fence ((?s @ ws2) @ fence @ post) = Some (length (?s @ ws2))"
    using assms(4,3) last_JSON_stringify [of obj] by (intro indexOf_closing_fence) simp_all
  have 5: "trimEnd (?s @ ws2) = ?s"
    using assms(3) last_JSON_stringify [of obj]
    by (intro trimEnd_spaces) (simp_all add: not_isSpace_punctuation)
  show ?thesis
    unfolding codeBlockMatch_def 1 option.case 2 Let_def 3 4 by (simp add: 5)
qed

lemma candidateText_fenced:
  assumes "indexOf fenceJson pre = None"
    and "\<forall>c \<in> set ws1. isSpace c" "\<forall>c \<in> set ws2. isSpace c"
    and "indexOf fence (JSON_stringify obj) = None"
  shows "candidateText (pre @ fenceJson @ ws1 @ JSON_stringify obj @ ws2 @ fence @ post) =
         JSON_stringify obj"
  using assms(4)
  by (simp add: candidateText_def codeBlockMatch_fenced [OF assms] stripFences_id
      indexOf_None_iff trim_JSON_stringify)

text \<open>
  Where nothing interferes the round trip holds. For a file state that is not empty,
  whose keys are distinct and not \<^verbatim>\<open>__proto__\<close>, and whose serialisation holds no
  \<^verbatim>\<open>```\<close>, the extractor returns the file state itself from the serialisation given
  bare; given between prose, when the prose before it holds no \<^verbatim>\<open>{\<close> and the whole text
  no \<^verbatim>\<open>```json\<close> block; and given in a \<^verbatim>\<open>```json\<close> fenced block (white space around it
  inside the fence, no \<^verbatim>\<open>```json\<close> in the prose before, any text after).
\<close>

lemma extractAndParseJSON_recovers_serialized:
  assumes "obj \<noteq> []" and "distinct (keys obj)" and "js ''__proto__'' \<notin> set (keys obj)"
    and "indexOf fence (JSON_stringify obj) = None"
  shows "extractAndParseJSON rt (JSON_stringify obj) = Inr obj \<and>
         (123 \<notin> set pre \<and> codeBlockMatch (pre @ JSON_stringify obj @ post) = None \<longrightarrow>
            extractAndParseJSON rt (pre @ JSON_stringify obj @ post) = Inr obj) \<and>
         (indexOf fenceJson pre = None \<and> (\<forall>c \<in> set ws1. isSpace c) \<and>
          (\<forall>c \<in> set ws2. isSpace c) \<longrightarrow>
            extractAndParseJSON rt
              (pre @ fenceJson @ ws1 @ JSON_stringify obj @ ws2 @ fence @ post) = Inr obj)"
proof (intro conjI impI)
  have "candidateText ([] @ JSON_stringify obj @ []) = JSON_stringify obj"
    using assms(4) by (intro candidateText_prose codeBlockMatch_bare) simp_all
  then have "candidateText (JSON_stringify obj) = JSON_stringify obj" by simp
  then show "extractAndParseJSON rt (JSON_stringify obj) = Inr obj"
    using assms(1,2,3) by (rule extract_of_candidate)
next
  assume "123 \<notin> set pre \<and> codeBlockMatch (pre @ JSON_stringify obj @ post) = None"
  then have "candidateText (pre @ JSON_stringify obj @ post) = JSON_stringify obj"
    using assms(4) by (intro candidateText_prose) simp_all
  then show "extractAndParseJSON rt (pre @ JSON_stringify obj @ post) = Inr obj"
    using assms(1,2,3) by (rule extract_of_candidate)
next
  assume "indexOf fenceJson pre = None \<and> (\<forall>c \<in> set ws1. isSpace c) \<and>
          (\<forall>c \<in> set ws2. isSpace c)"
  then have "candidateText (pre @ fenceJson @ ws1 @ JSON_stringify obj @ ws2 @ fence @ post) =
      JSON_stringify obj"
    using assms(4) by (intro candidateText_fenced) simp_all
  then show "extractAndParseJSON rt
      (pre @ fenceJson @ ws1 @ JSON_stringify obj @ ws2 @ fence @ post) = Inr obj"
    using assms(1,2,3) by (rule extract_of_candidate)
qed

lemma oneFile_text: "JSON_stringify oneFile = js ''{\"/a.js\":\"1\"}''"
  by (simp add: oneFile_def JSON_stringify_def quoteJSONString_def escapeUnit_def js_def
      isLeadSurrogate_def isTrailSurrogate_def)

lemma extractAndParseJSON_recovers_oneFile:
  "oneFile \<noteq> [] \<and> distinct (keys oneFile) \<and> js ''__proto__'' \<notin> set (keys oneFile) \<and>
   indexOf fence (JSON_stringify oneFile) = None \<and>
   123 \<notin> set proseBefore \<and>
   codeBlockMatch (proseBefore @ JSON_stringify oneFile @ proseAfter) = None \<and>
   indexOf fenceJson proseBefore = None \<and> isSpace 10 \<and>
   extractAndParseJSON referenceRuntime (JSON_stringify oneFile) = Inr oneFile \<and>
   extractAndParseJSON referenceRuntime (proseBefore @ JSON_stringify oneFile @ proseAfter) =
     Inr oneFile \<and>
   extractAndParseJSON referenceRuntime
     (proseBefore @ fenceJson @ [10] @ JSON_stringify oneFile @ [10] @ fence @ proseAfter) =
     Inr oneFile"
proof -
  have a: "oneFile \<noteq> []" "distinct (keys oneFile)" "js ''__proto__'' \<notin> set (keys oneFile)"
    by (simp_all add: oneFile_def keys_def js_def)
  have b: "indexOf fence (JSON_stringify oneFile) = None"
    unfolding oneFile_text by (simp add: js_def fence_def)
  have c: "123 \<notin> set proseBefore"
    by (simp add: proseBefore_def js_def)
  have d: "indexOf fenceJson proseBefore = None"
    by (simp add: proseBefore_def js_def fenceJson_def)
  have "indexOf fenceJson (proseBefore @ JSON_stringify oneFile @ proseAfter) = None"
    unfolding oneFile_text by (simp add: proseBefore_def proseAfter_def js_def fenceJson_def)
  then have e: "codeBlockMatch (proseBefore @ JSON_stringify oneFile @ proseAfter) = None"
    by (simp add: codeBlockMatch_def)
  have f: "isSpace 10" by (simp add: isSpace_def)
  then have g: "\<forall>c \<in> set [10]. isSpace c" by simp
  from extractAndParseJSON_recovers_serialized [OF a b, of referenceRuntime proseBefore
      proseAfter "[10]" "[10]"] a b c d e f g
  show ?thesis by blast
qed

text \<open>
  The serialisation \<^verbatim>\<open>{}\<close> of the empty file state parses to an object without
  entries, and the guard on \<^verbatim>\<open>Object.keys(files).length\<close> throws.
\<close>

lemma extractAndParseJSON_rejects_empty_state:
  "JSON_stringify [] = js ''{}'' \<and>
   extractAndParseJSON referenceRuntime (JSON_stringify []) =
     Inl (Error (js ''Failed to parse generated code: No files generated''))"
proof -
  have s: "JSON_stringify [] = [123, 125]" by (simp add: JSON_stringify_def)
  have "codeBlockMatch [123, 125] = None"
    by (simp add: codeBlockMatch_def fenceJson_eq)
  moreover have "braceCandidate [123, 125] = [123, 125]"
    by (simp add: braceCandidate_def scanBraces.simps)
  moreover have "stripFences [123, 125] = [123, 125]"
    by (simp add: fence_eq fenceJson_eq)
  moreover have "trim [123, 125] = [123, 125]"
    by (simp add: trim_def isSpace_def)
  ultimately have c: "candidateText [123, 125] = [123, 125]"
    by (simp add: candidateText_def)
  have p: "JSON_parse [123, 125] = Some (JObject [])"
    by (simp add: JSON_parse_def skipSpace_def isJsonSpace_def parseValue.simps)
  show ?thesis
    unfolding s
    by (simp add: extractAndParseJSON_def c p isObject_def entries_def parseFailure_def js_def)
qed

text \<open>
  Evaluations of the parser on concrete texts unfold it with these equations.
\<close>

lemma parseValue_numeral: "parseValue (numeral k) s = parseValue (Suc (pred_numeral k)) s"
  by (simp add: numeral_eq_Suc)

lemma parseMembers_numeral: "parseMembers (numeral k) s = parseMembers (Suc (pred_numeral k)) s"
  by (simp add: numeral_eq_Suc)

lemmas parse_simps = parseValue.simps parseMembers.simps parseElements.simps parseChars.simps
  skipSpace_def isJsonSpace_def consChar_def simpleEscape_def parseValue_numeral
  parseMembers_numeral parseNumber_def digitsOf_def isDigit_def

lemma oneFile_text_eq: "JSON_stringify oneFile = [123, 34, 47, 97, 46, 106, 115, 34, 58, 34, 49, 34, 125]"
  by (simp add: oneFile_text js_def)

lemma readme_text:
  "JSON_stringify readme = [123, 34, 47, 82, 69, 65, 68, 77, 69, 46, 109, 100, 34, 58, 34, 96, 96, 96, 34, 125]"
  by (simp add: readme_def JSON_stringify_def quoteJSONString_def escapeUnit_def js_def
      isLeadSurrogate_def isTrailSurrogate_def)

lemma installNotes_text:
  "JSON_stringify installNotes =
     [123, 34, 47, 82, 69, 65, 68, 77, 69, 46, 109, 100, 34, 58, 34, 82, 117,
      110, 58, 92, 110, 96, 96, 96, 98, 97, 115, 104, 92, 110, 110, 112, 109,
      32, 105, 110, 115, 116, 97, 108, 108, 92, 110, 96, 96, 96, 92, 110, 34, 125]"
  by (simp add: installNotes_def JSON_stringify_def quoteJSONString_def escapeUnit_def js_def
      isLeadSurrogate_def isTrailSurrogate_def)

lemma extract_readme:
  "extractAndParseJSON rt (JSON_stringify readme) = Inr [(js ''/README.md'', [])]"
proof -
  let ?t = "JSON_stringify readme"
  let ?s = "[123, 34, 47, 82, 69, 65, 68, 77, 69, 46, 109, 100, 34, 58, 34, 34, 125] :: jsstring"
  have "codeBlockMatch ?t = None"
    unfolding readme_text by (simp add: codeBlockMatch_def fenceJson_eq)
  moreover have "braceCandidate ?t = ?t"
    unfolding readme_text by (simp add: braceCandidate_def scanBraces.simps)
  moreover have "stripFences ?t = ?s"
    unfolding readme_text by (simp add: fence_eq fenceJson_eq)
  moreover have "trim ?s = ?s"
    by (simp add: trim_def isSpace_def)
  ultimately have c: "candidateText ?t = ?s"
    by (simp add: candidateText_def)
  have "JSON_parse ?s = Some (JObject [(js ''/README.md'', JString [])])"
    by (simp add: JSON_parse_def parse_simps js_def)
  with c show ?thesis
    by (simp add: extractAndParseJSON_def isObject_def entries_def assignFile_def js_def)
qed

lemma extract_installNotes:
  "extractAndParseJSON rt (JSON_stringify installNotes) =
     Inr [(js ''/README.md'', js ''Run:'' @ [10] @ js ''bash'' @ [10] @ js ''npm install'' @ [10, 10])]"
proof -
  let ?t = "JSON_stringify installNotes"
  let ?s = "[123, 34, 47, 82, 69, 65, 68, 77, 69, 46, 109, 100, 34, 58, 34, 82, 117,
      110, 58, 92, 110, 98, 97, 115, 104, 92, 110, 110, 112, 109, 32, 105, 110,
      115, 116, 97, 108, 108, 92, 110, 92, 110, 34, 125] :: jsstring"
  have "codeBlockMatch ?t = None"
    unfolding installNotes_text by (simp add: codeBlockMatch_def fenceJson_eq)
  moreover have "braceCandidate ?t = ?t"
    unfolding installNotes_text by (simp add: braceCandidate_def scanBraces.simps)
  moreover have "stripFences ?t = ?s"
    unfolding installNotes_text by (simp add: fence_eq fenceJson_eq)
  moreover have "trim ?s = ?s"
    by (simp add: trim_def isSpace_def)
  ultimately have c: "candidateText ?t = ?s"
    by (simp add: candidateText_def)
  have "JSON_parse ?s = Some (JObject [(js ''/README.md'',
      JString (js ''Run:'' @ [10] @ js ''bash'' @ [10] @ js ''npm install'' @ [10, 10]))])"
    by (simp add: JSON_parse_def parse_simps js_def)
  with c show ?thesis
    by (simp add: extractAndParseJSON_def isObject_def entries_def assignFile_def js_def)
qed

text \<open>
  Claim C1, evaluated at file states whose content holds a code fence. The fence remover
  \<^verbatim>\<open>replace(/```json|```|\n```/g, "")\<close> runs over the whole candidate, string literals
  included (the brace scan before it does skip them). So from the bare serialisation of
  a README whose content is \<^verbatim>\<open>```\<close> the extractor returns, without an error, a README
  with empty content, and from a README with a fenced shell command one with both fences
  struck out of the content: neither is the state that was serialised.
\<close>

theorem extractAndParseJSON_strips_fence_in_content:
  "extractAndParseJSON rt (JSON_stringify readme) = Inr [(js ''/README.md'', [])] \<and>
   extractAndParseJSON rt (JSON_stringify readme) \<noteq> Inr readme \<and>
   extractAndParseJSON rt (JSON_stringify installNotes) =
     Inr [(js ''/README.md'', js ''Run:'' @ [10] @ js ''bash'' @ [10] @ js ''npm install'' @ [10, 10])] \<and>
   extractAndParseJSON rt (JSON_stringify installNotes) \<noteq> Inr installNotes"
  unfolding extract_readme extract_installNotes
  by (simp add: readme_def installNotes_def js_def)

text \<open>
  What else the conditions of the round trip exclude. The assignment
  \<^verbatim>\<open>files["__proto__"] = value\<close> adds no property; the brace scan starts at the first
  \<^verbatim>\<open>{\<close> of the text, and the fence match at the first \<^verbatim>\<open>```json\<close>.
\<close>

lemma extractAndParseJSON_drops_proto_key:
  "extractAndParseJSON rt (JSON_stringify protoState) = Inl (parseFailure (js ''No files generated''))"
proof -
  let ?t = "JSON_stringify protoState"
  have t: "?t = [123, 34, 95, 95, 112, 114, 111, 116, 111, 95, 95, 34, 58, 34, 120, 34, 125]"
    by (simp add: protoState_def JSON_stringify_def quoteJSONString_def escapeUnit_def js_def
      isLeadSurrogate_def isTrailSurrogate_def)
  have "codeBlockMatch ?t = None"
    unfolding t by (simp add: codeBlockMatch_def fenceJson_eq)
  moreover have "braceCandidate ?t = ?t"
    unfolding t by (simp add: braceCandidate_def scanBraces.simps)
  moreover have "stripFences ?t = ?t"
    unfolding t by (simp add: fence_eq fenceJson_eq)
  moreover have "trim ?t = ?t"
    unfolding t by (simp add: trim_def isSpace_def)
  ultimately have c: "candidateText ?t = ?t"
    by (simp add: candidateText_def)
  have "JSON_parse ?t = Some (JObject [(js ''__proto__'', JString (js ''x''))])"
    unfolding t by (simp add: JSON_parse_def parse_simps js_def)
  with c show ?thesis
    by (simp add: extractAndParseJSON_def isObject_def entries_def assignFile_def)
qed

lemma extractAndParseJSON_takes_first_brace:
  "extractAndParseJSON rt (bracedProse @ JSON_stringify oneFile) =
     Inl (parseFailure (syntaxErrorMessage rt (js ''{x}'')))"
proof -
  let ?t = "bracedProse @ JSON_stringify oneFile"
  have t: "?t = [85, 115, 101, 32, 123, 120, 125, 58, 32,
                 123, 34, 47, 97, 46, 106, 115, 34, 58, 34, 49, 34, 125]"
    by (simp add: bracedProse_def oneFile_text_eq js_def)
  have "codeBlockMatch ?t = None"
    unfolding t by (simp add: codeBlockMatch_def fenceJson_eq)
  moreover have "braceCandidate ?t = [123, 120, 125]"
    unfolding t by (simp add: braceCandidate_def scanBraces.simps)
  moreover have "stripFences [123, 120, 125] = [123, 120, 125]"
    by (simp add: fence_eq fenceJson_eq)
  moreover have "trim [123, 120, 125] = [123, 120, 125]"
    by (simp add: trim_def isSpace_def)
  ultimately have c: "candidateText ?t = [123, 120, 125]"
    by (simp add: candidateText_def)
  have "JSON_parse [123, 120, 125] = None"
    by (simp add: JSON_parse_def parse_simps)
  with c show ?thesis by (simp add: extractAndParseJSON_def js_def)
qed

lemma extractAndParseJSON_takes_first_fence:
  "extractAndParseJSON rt
     (fencedProse @ fenceJson @ [10] @ JSON_stringify oneFile @ [10] @ fence) =
     Inl (parseFailure (syntaxErrorMessage rt (js ''blocks.'')))"
proof -
  let ?t = "fencedProse @ fenceJson @ [10] @ JSON_stringify oneFile @ [10] @ fence"
  have t: "?t = [85, 115, 101, 32, 96, 96, 96, 106, 115, 111, 110, 32, 98, 108, 111, 99, 107, 115, 46, 32,
                 96, 96, 96, 106, 115, 111, 110, 10,
                 123, 34, 47, 97, 46, 106, 115, 34, 58, 34, 49, 34, 125, 10, 96, 96, 96]"
    by (simp add: fencedProse_def oneFile_text_eq js_def fence_eq fenceJson_eq)
  have "codeBlockMatch ?t = Some (js ''blocks.'')"
    unfolding t by (simp add: codeBlockMatch_def fenceJson_eq fence_eq isSpace_def trimEnd_def js_def)
  moreover have "stripFences (js ''blocks.'') = js ''blocks.''"
    by (simp add: fence_eq fenceJson_eq js_def)
  moreover have "trim (js ''blocks.'') = js ''blocks.''"
    by (simp add: trim_def isSpace_def js_def)
  ultimately have c: "candidateText ?t = js ''blocks.''"
    by (simp add: candidateText_def)
  have "JSON_parse (js ''blocks.'') = None"
    by (simp add: JSON_parse_def parse_simps js_def)
  with c show ?thesis by (simp add: extractAndParseJSON_def)
qed

section \<open>Properties of the handler\<close>




lemma set_setProp: "set (setProp st k v) \<subseteq> insert (k, v) (set st)"
  by (induction st) (auto split: if_splits)

lemma save_Inr:
  "save env st ident c = Inr st' \<Longrightarrow>
   validates c \<and> saveError env = None \<and> st' = setProp st ident c"
  by (auto simp: save_def split: if_splits option.splits)

lemma appendedTo_mirrors: "appendedTo st ident c \<Longrightarrow> mirrors c"
  by (auto simp: appendedTo_def mirrors_def)

lemma persistTurn_Inr:
  assumes "persistTurn env st b conversation newFiles full changes = Inr (ident, st')"
    and "known st conversation"
  shows "saveError env = None \<and>
         (\<exists>c. st' = setProp st ident c \<and> validates c \<and> appendedTo st ident c \<and>
              currentFiles c = full)"
proof (cases "if iterative b then conversation else None")
  case None
  let ?t = "\<lparr>turn_prompt = prompt b, timestamp = now env,
             fileChanges = map (\<lambda>p. \<lparr>path = p, status = New, previousContent = None\<rparr>)
                             (keys newFiles),
             fullState = full\<rparr>"
  let ?c = "\<lparr>userId = userIdOf b, initialPrompt = prompt b,
             uploadedFiles = (case body_uploadedFiles b of Some u \<Rightarrow> u | None \<Rightarrow> []),
             conversationTurns = [?t], currentFiles = full\<rparr>"
  from None assms(1) have "save env st (freshId env) ?c = Inr st'" "ident = freshId env"
    by (auto simp: persistTurn_def split: sum.splits)
  then have "validates ?c" "saveError env = None" "st' = setProp st ident ?c"
    by (auto dest!: save_Inr)
  moreover have "appendedTo st ident ?c"
    unfolding appendedTo_def by (intro exI [of _ ?t]) simp
  moreover have "currentFiles ?c = full" by simp
  ultimately show ?thesis by blast
next
  case (Some ic)
  obtain i c0 where ic: "ic = (i, c0)" by (cases ic)
  with Some have "conversation = Some (i, c0)" by (simp split: if_splits)
  with assms(2) have m: "map_of st i = Some c0" by (simp add: known_def)
  let ?t = "\<lparr>turn_prompt = prompt b, timestamp = now env, fileChanges = changes,
             fullState = full\<rparr>"
  let ?c = "c0\<lparr>conversationTurns := conversationTurns c0 @ [?t], currentFiles := full\<rparr>"
  from Some ic assms(1) have "save env st i ?c = Inr st'" "ident = i"
    by (auto simp: persistTurn_def split: sum.splits)
  then have "validates ?c" "saveError env = None" "st' = setProp st ident ?c"
    by (auto dest!: save_Inr)
  moreover have "appendedTo st ident ?c"
    unfolding appendedTo_def using m \<open>ident = i\<close> by (intro exI [of _ ?t]) simp
  moreover have "currentFiles ?c = full" by simp
  ultimately show ?thesis by blast
qed

lemma finishGeneration_Inr:
  assumes "finishGeneration env st b conversation responseText = Inr (g, st')"
    and "known st conversation"
  shows "extractAndParseJSON (engine env) responseText = Inr (gen_files g) \<and>
         saveError env = None \<and>
         (\<exists>c. st' = setProp st (gen_conversationId g) c \<and> validates c \<and>
              appendedTo st (gen_conversationId g) c \<and> currentFiles c = gen_fullFiles g)"
proof -
  from assms(1) obtain newFiles where n: "extractAndParseJSON (engine env) responseText = Inr newFiles"
    by (auto simp: finishGeneration_def split: sum.splits)
  let ?prev = "previousFilesOf b conversation"
  from assms(1) n obtain ident where
    p: "persistTurn env st b conversation newFiles (mergeFiles ?prev newFiles)
          (detectFileChanges ?prev newFiles) = Inr (ident, st')"
    and g: "g = \<lparr>gen_files = newFiles, gen_fullFiles = mergeFiles ?prev newFiles,
                  gen_changedFiles = detectFileChanges ?prev newFiles,
                  gen_conversationId = ident\<rparr>"
    by (auto simp: finishGeneration_def Let_def split: sum.splits)
  from persistTurn_Inr [OF p assms(2)] n g show ?thesis by simp
qed

lemma terminal_readLine:
  "filter isTerminal (snd (readLine rt line acc)) = filter isTerminal (snd acc)"
  by (simp add: readLine_def isTerminal_def split: option.splits)

lemma terminal_readChunk:
  "filter isTerminal (snd (readChunk rt chunk acc)) = filter isTerminal (snd acc)"
proof -
  have "filter isTerminal (snd (fold (readLine rt) ls acc)) = filter isTerminal (snd acc)" for ls
    by (induction ls arbitrary: acc) (simp_all add: terminal_readLine)
  then show ?thesis by (simp add: readChunk_def)
qed

lemma terminal_progress:
  "filter isTerminal (snd (fold (readChunk rt) chunks acc)) = filter isTerminal (snd acc)"
  by (induction chunks arbitrary: acc) (simp_all add: terminal_readChunk)

lemma terminal_fileEvents: "filter isTerminal (fileEvents newFiles changes) = []"
  by (induction newFiles) (auto simp: fileEvents_def isTerminal_def)

lemma terminal_simps:
  "isTerminal (ErrorEvent m)" "isTerminal (CompleteEvent i u ch ff it)"
  "\<not> isTerminal (StatusEvent s)"
  by (simp_all add: isTerminal_def)

lemma streamTask_outcome:
  assumes "streamTask env st b conversation = (evs, st')" and "known st conversation"
  shows "filter isTerminal evs = [last evs] \<and>
         ((\<exists>m. last evs = ErrorEvent m \<and> st' = st) \<or>
          (\<exists>ident u changes full it c.
             last evs = CompleteEvent ident u changes full it \<and> staged env \<and>
             saveError env = None \<and> st' = setProp st ident c \<and> validates c \<and>
             appendedTo st ident c))"
proof (cases "snd (fetchWithRetry (provider env))")
  case (Inl e)
  with assms(1) show ?thesis
    by (auto simp: streamTask_def terminal_simps)
next
  case (Inr response)
  note r = this
  show ?thesis
  proof (cases "body response")
    case None
    with r assms(1) show ?thesis
      by (auto simp: streamTask_def terminal_simps)
  next
    case (Some bs)
    obtain chunks readError where bs: "bs = BodyStream chunks readError" by (cases bs)
    let ?read = "fold (readChunk (engine env)) chunks ([], [])"
    have p: "filter isTerminal (snd ?read) = []"
      using terminal_progress [of "engine env" chunks "([], [])"] by simp
    show ?thesis
    proof (cases readError)
      case (Some e)
      with r \<open>body response = Some bs\<close> bs assms(1) p show ?thesis
        by (auto simp: streamTask_def Let_def terminal_simps)
    next
      case None
      note n = this
      show ?thesis
      proof (cases "finishGeneration env st b conversation (fst ?read)")
        case (Inl e)
        with r \<open>body response = Some bs\<close> bs n assms(1) p show ?thesis
          by (auto simp: streamTask_def Let_def terminal_simps)
      next
        case (Inr gs)
        obtain g s where gs: "gs = (g, s)" by (cases gs)
        from Inr gs finishGeneration_Inr [of env st b conversation "fst ?read" g s] assms(2)
        obtain c where f: "extractAndParseJSON (engine env) (fst ?read) = Inr (gen_files g)"
          "saveError env = None" "s = setProp st (gen_conversationId g) c" "validates c"
          "appendedTo st (gen_conversationId g) c"
          by auto
        have "staged env"
          unfolding staged_def using r \<open>body response = Some bs\<close> bs n f(1) by auto
        with Inr gs r \<open>body response = Some bs\<close> bs n assms(1) p f show ?thesis
          by (auto simp: streamTask_def Let_def terminal_simps terminal_fileEvents)
      qed
    qed
  qed
qed

lemma generate_EventStream:
  assumes "generate env st b conversation = (EventStream evs, st')"
  shows "streamTask env st b conversation = (evs, st')"
proof (cases "streaming b = Some True")
  case True
  with assms show ?thesis
    by (auto simp: generate_def Let_def)
next
  case False
  with assms show ?thesis
    by (auto simp: generate_def respondOnce_def serverError_def
        split: sum.splits if_splits list.splits)
qed

lemma POST_generate:
  "POST env st request = generate env st b conversation \<and> known st conversation \<or>
   (\<exists>code e. POST env st request = (JsonResponse code (ErrorBody e), st))" if "request = Inr b"
    "conversation = (case requestedConversation b of
                       None \<Rightarrow> None
                     | Some ident \<Rightarrow> map_option (Pair ident) (map_of st ident))"
  using that
  by (auto simp: POST_def serverError_def known_def split: option.splits)

lemma POST_cases:
  obtains (failed) code e where "POST env st request = (JsonResponse code (ErrorBody e), st)"
  | (generated) b conversation where "POST env st request = generate env st b conversation"
      "known st conversation"
proof (cases request)
  case (Inl e)
  then have "POST env st request = (JsonResponse 500 (ErrorBody (message e)), st)
      \<or> (\<exists>e'. POST env st request = (JsonResponse 500 (ErrorBody (message e')), st))"
    by (auto simp: POST_def serverError_def split: option.splits)
  then show ?thesis using failed by blast
next
  case (Inr b)
  from POST_generate [OF Inr refl] show ?thesis
    using failed generated by blast
qed

lemma POST_EventStream:
  assumes "POST env st request = (EventStream evs, st')"
  shows "\<exists>b conversation. streamTask env st b conversation = (evs, st') \<and> known st conversation"
proof (cases rule: POST_cases [of env st request])
  case (failed code e)
  with assms show ?thesis by simp
next
  case (generated b conversation)
  with assms generate_EventStream [of env st b conversation evs st'] show ?thesis by auto
qed

text \<open>
  Claim C5. In every run of the streaming task the event sequence holds exactly one
  terminal event, and it is the last event. If it is a \<^verbatim>\<open>complete\<close> event, no \<^verbatim>\<open>error\<close>
  event was sent, every stage succeeded, the write succeeded, and the store holds under
  the id of the event a valid conversation whose \<^verbatim>\<open>currentFiles\<close> mirror its last turn.
  If a stage fails, or the write fails, the terminal event is an \<^verbatim>\<open>error\<close> event and no
  \<^verbatim>\<open>complete\<close> event is sent.
\<close>

theorem streaming_exactly_one_terminal_event:
  assumes "POST env st request = (EventStream evs, st')"
  shows "length (filter isTerminal evs) = 1 \<and> isTerminal (last evs) \<and>
         (\<forall>ident u changes full it.
            CompleteEvent ident u changes full it \<in> set evs \<longrightarrow>
              (\<forall>m. ErrorEvent m \<notin> set evs) \<and> staged env \<and> saveError env = None \<and>
              (\<exists>c. map_of st' ident = Some c \<and> validates c \<and> mirrors c)) \<and>
         ((\<not> staged env \<or> saveError env \<noteq> None) \<longrightarrow>
            (\<exists>m. last evs = ErrorEvent m) \<and>
            (\<forall>ident u changes full it. CompleteEvent ident u changes full it \<notin> set evs))"
proof -
  from assms obtain b conversation where t: "streamTask env st b conversation = (evs, st')"
    and k: "known st conversation"
    using POST_EventStream by blast
  from streamTask_outcome [OF t k]
  have one: "filter isTerminal evs = [last evs]"
    and out: "(\<exists>m. last evs = ErrorEvent m \<and> st' = st) \<or>
          (\<exists>ident u changes full it c.
             last evs = CompleteEvent ident u changes full it \<and> staged env \<and>
             saveError env = None \<and> st' = setProp st ident c \<and> validates c \<and>
             appendedTo st ident c)"
    by simp_all
  have mem: "ev = last evs" if "ev \<in> set evs" "isTerminal ev" for ev
  proof -
    from that have "ev \<in> set (filter isTerminal evs)" by simp
    with one show ?thesis by simp
  qed
  have fin: "isTerminal (last evs)"
  proof -
    have "last evs \<in> set (filter isTerminal evs)" unfolding one by simp
    then show ?thesis by simp
  qed
  from out show ?thesis
  proof
    assume "\<exists>m. last evs = ErrorEvent m \<and> st' = st"
    then obtain m where m: "last evs = ErrorEvent m" by blast
    have "CompleteEvent ident u changes full it \<notin> set evs" for ident u changes full it
      using mem [of "CompleteEvent ident u changes full it"] m
      by (auto simp: terminal_simps)
    with one fin m show ?thesis by simp
  next
    assume "\<exists>ident u changes full it c.
             last evs = CompleteEvent ident u changes full it \<and> staged env \<and>
             saveError env = None \<and> st' = setProp st ident c \<and> validates c \<and>
             appendedTo st ident c"
    then obtain ident u changes full it c where
      l: "last evs = CompleteEvent ident u changes full it" and s: "staged env"
      and e: "saveError env = None" and st': "st' = setProp st ident c"
      and c: "validates c" "mirrors c"
      by (blast dest: appendedTo_mirrors)
    have noerr: "ErrorEvent m \<notin> set evs" for m
      using mem [of "ErrorEvent m"] l by (auto simp: terminal_simps)
    have "ident' = ident" if "CompleteEvent ident' u' changes' full' it' \<in> set evs"
      for ident' u' changes' full' it'
      using mem [OF that] l by (simp add: terminal_simps)
    with one fin s e st' c noerr show ?thesis
      by (auto simp: map_of_setProp_same)
  qed
qed

lemma respondOnce_store:
  assumes "known st conversation"
  shows "snd (respondOnce env st b conversation) = st \<or>
   (\<exists>ident c. snd (respondOnce env st b conversation) = setProp st ident c \<and>
      appendedTo st ident c)"
proof -
  have f: "snd (case finishGeneration env st b conversation t of
                  Inl e \<Rightarrow> serverError e st
                | Inr (g, st') \<Rightarrow> (JsonResponse 200 (GeneratedBody g (userIdOf b) (iterative b)), st')) = st \<or>
           (\<exists>ident c. snd (case finishGeneration env st b conversation t of
                  Inl e \<Rightarrow> serverError e st
                | Inr (g, st') \<Rightarrow> (JsonResponse 200 (GeneratedBody g (userIdOf b) (iterative b)), st'))
                = setProp st ident c \<and> appendedTo st ident c)" for t
  proof (cases "finishGeneration env st b conversation t")
    case (Inl e)
    then show ?thesis by (simp add: serverError_def)
  next
    case (Inr gs)
    obtain g s where gs: "gs = (g, s)" by (cases gs)
    from Inr gs finishGeneration_Inr [of env st b conversation t g s] assms
    show ?thesis by auto
  qed
  show ?thesis
    unfolding respondOnce_def
    by (auto simp: serverError_def f split: sum.splits list.splits)
qed

lemma generate_store:
  assumes "known st conversation"
  shows "snd (generate env st b conversation) = st \<or>
   (\<exists>ident c. snd (generate env st b conversation) = setProp st ident c \<and>
      appendedTo st ident c)"
proof (cases "streaming b = Some True")
  case True
  obtain evs st' where t: "streamTask env st b conversation = (evs, st')"
    by (cases "streamTask env st b conversation")
  from streamTask_outcome [OF t assms] True t show ?thesis
    by (auto simp: generate_def Let_def)
next
  case False
  then show ?thesis
    using respondOnce_store [OF assms] by (simp add: generate_def)
qed

lemma POST_store:
  "snd (POST env st request) = st \<or>
   (\<exists>ident c. snd (POST env st request) = setProp st ident c \<and> appendedTo st ident c)"
proof (cases rule: POST_cases [of env st request])
  case (failed code e)
  then show ?thesis by simp
next
  case (generated b conversation)
  with generate_store [OF generated(2)] show ?thesis by simp
qed

lemma storeMirrors_setProp: "storeMirrors st \<Longrightarrow> mirrors c \<Longrightarrow> storeMirrors (setProp st ident c)"
  using set_setProp [of st ident c] by (auto simp: storeMirrors_def)

lemma storeMirrors_POST: "storeMirrors st \<Longrightarrow> storeMirrors (snd (POST env st request))"
  using POST_store [of env st request]
  by (auto intro!: storeMirrors_setProp dest: appendedTo_mirrors)

lemma storeMirrors_serve: "storeMirrors st \<Longrightarrow> storeMirrors (serve requests st)"
proof (induction requests arbitrary: st)
  case Nil
  then show ?case by (simp add: serve_def)
next
  case (Cons r requests)
  obtain env request where r: "r = (env, request)" by (cases r)
  have "serve (r # requests) st = serve requests (snd (POST env st request))"
    by (simp add: serve_def r)
  with Cons show ?case by (simp add: storeMirrors_POST)
qed

text \<open>
  Claim C7. After every sequence of requests, in either mode, every stored conversation
  has \<^verbatim>\<open>currentFiles\<close> equal to the \<^verbatim>\<open>fullState\<close> of its last turn. A request either
  leaves the store as it is or writes one document, once: a conversation with one turn
  appended (to the stored turns, or as the first turn) whose \<^verbatim>\<open>currentFiles\<close> is the
  \<^verbatim>\<open>fullState\<close> of that turn.
\<close>

theorem currentFiles_mirrors_appended_turn:
  "storeMirrors (serve requests []) \<and>
   (snd (POST env st request) = st \<or>
    (\<exists>ident c t.
       snd (POST env st request) = setProp st ident c \<and>
       (conversationTurns c = [t] \<or>
        (\<exists>c0. map_of st ident = Some c0 \<and> conversationTurns c = conversationTurns c0 @ [t])) \<and>
       currentFiles c = fullState t))"
proof -
  have "storeMirrors []" by (simp add: storeMirrors_def)
  then have "storeMirrors (serve requests [])" by (rule storeMirrors_serve)
  with POST_store [of env st request] show ?thesis
    unfolding appendedTo_def by blast
qed

lemma fetchWithRetry_answering:
  "ok r \<Longrightarrow> http_status r \<noteq> 529 \<Longrightarrow> fetchWithRetry (answering r) = ([DoFetch], Inr r)"
  by (simp add: fetchWithRetry_def fetchAttempts.simps answering_def)

lemma fetchWithRetry_always529: "snd (fetchWithRetry always529) = Inl (Error (js ''Status: 529''))"
  by (simp add: fetchWithRetry_def fetchAttempts.simps always529_def overloadedResponse_def
      io_then_def ok_def decimal_529 js_def)

lemma truncatedText_eq: "truncatedText = [123, 34, 47, 97, 46, 106, 115, 34, 58, 32, 34, 99, 111, 110]"
  by (simp add: truncatedText_def js_def)

lemma quote_simps:
  "quoteJSONString [123, 34, 47, 97, 46, 106, 115, 34, 58, 32, 34, 99, 111, 110] =
     [34, 123, 92, 34, 47, 97, 46, 106, 115, 92, 34, 58, 32, 92, 34, 99, 111, 110, 34]"
  "quoteJSONString [123, 34, 47, 97, 46, 106, 115, 34, 58, 34, 49, 34, 125] =
     [34, 123, 92, 34, 47, 97, 46, 106, 115, 92, 34, 58, 92, 34, 49, 92, 34, 125, 34]"
  by (simp_all add: quoteJSONString_def escapeUnit_def isLeadSurrogate_def isTrailSurrogate_def)

lemma deltaText_truncated: "deltaText referenceRuntime (deltaFrame truncatedText) = Some (JString truncatedText)"
  unfolding truncatedText_eq deltaFrame_def quote_simps
  by (simp add: deltaText_def js_def JSON_parse_def parse_simps member_def truthyJson_def)

lemma deltaText_complete:
  "deltaText referenceRuntime (deltaFrame (JSON_stringify oneFile)) = Some (JString (JSON_stringify oneFile))"
  unfolding oneFile_text_eq deltaFrame_def quote_simps
  by (simp add: deltaText_def js_def JSON_parse_def parse_simps member_def truthyJson_def)

lemma deltaText_stop: "deltaText rt stopFrame = None"
  by (simp add: deltaText_def stopFrame_def js_def JSON_parse_def parse_simps member_def)

lemma deltaText_empty: "deltaText rt [] = None"
  by (simp add: deltaText_def js_def)

lemma splitLines_line: "10 \<notin> set l \<Longrightarrow> splitLines (l @ [10]) = [l, []]"
  by (induction l) auto

lemma newline_free:
  "10 \<notin> set (deltaFrame truncatedText)" "10 \<notin> set (deltaFrame (JSON_stringify oneFile))"
  "10 \<notin> set stopFrame"
  unfolding truncatedText_eq oneFile_text_eq deltaFrame_def quote_simps stopFrame_def
  by (simp_all add: js_def)

lemma readChunk_line:
  "10 \<notin> set l \<Longrightarrow> readChunk rt (l @ [10]) acc = readLine rt l acc"
  by (simp add: readChunk_def splitLines_line readLine_def deltaText_empty)

lemma read_truncatedStream:
  "fold (readChunk referenceRuntime) [deltaFrame truncatedText @ [10], stopFrame @ [10]] ([], []) =
   (truncatedText, [ProgressEvent (JString truncatedText)])"
  by (simp add: readChunk_line newline_free readLine_def deltaText_truncated deltaText_stop)

lemma read_completeStream:
  "fold (readChunk referenceRuntime) [deltaFrame (JSON_stringify oneFile) @ [10]] ([], []) =
   (JSON_stringify oneFile, [ProgressEvent (JString (JSON_stringify oneFile))])"
  by (simp add: readChunk_line newline_free readLine_def deltaText_complete)

lemma extract_truncatedText:
  "extractAndParseJSON rt truncatedText = Inl (parseFailure (syntaxErrorMessage rt truncatedText))"
proof -
  have "codeBlockMatch truncatedText = None"
    unfolding truncatedText_eq by (simp add: codeBlockMatch_def fenceJson_eq)
  moreover have "braceCandidate truncatedText = truncatedText"
    unfolding truncatedText_eq by (simp add: braceCandidate_def scanBraces.simps)
  moreover have "stripFences truncatedText = truncatedText"
    unfolding truncatedText_eq by (simp add: fence_eq fenceJson_eq)
  moreover have "trim truncatedText = truncatedText"
    unfolding truncatedText_eq by (simp add: trim_def isSpace_def)
  ultimately have c: "candidateText truncatedText = truncatedText"
    by (simp add: candidateText_def)
  have "JSON_parse truncatedText = None"
    unfolding truncatedText_eq by (simp add: JSON_parse_def parse_simps)
  with c show ?thesis by (simp add: extractAndParseJSON_def)
qed

lemma extractAndParseJSON_bare:
  assumes "obj \<noteq> []" and "distinct (keys obj)" and "js ''__proto__'' \<notin> set (keys obj)"
    and "indexOf fence (JSON_stringify obj) = None"
  shows "extractAndParseJSON rt (JSON_stringify obj) = Inr obj"
proof -
  have "candidateText ([] @ JSON_stringify obj @ []) = JSON_stringify obj"
    using assms(4) by (intro candidateText_prose codeBlockMatch_bare) simp_all
  then have "candidateText (JSON_stringify obj) = JSON_stringify obj" by simp
  then show ?thesis using assms(1,2,3) by (rule extract_of_candidate)
qed

lemma extract_oneFile: "extractAndParseJSON rt (JSON_stringify oneFile) = Inr oneFile"
proof (rule extractAndParseJSON_bare)
  show "indexOf fence (JSON_stringify oneFile) = None"
    unfolding oneFile_text by (simp add: js_def fence_def)
qed (simp_all add: oneFile_def keys_def js_def)

lemma detect_oneFile:
  "detectFileChanges [] oneFile = [\<lparr>path = js ''/a.js'', status = New, previousContent = None\<rparr>]"
  by (simp add: detectFileChanges_def allPaths_def keys_def classifyPath_def getProp_def
      truthy_def objectPrototypeNames_def js_def oneFile_def)

lemma detect_oneFile_same: "detectFileChanges oneFile oneFile = []"
  by (simp add: detectFileChanges_def allPaths_def keys_def classifyPath_def getProp_def
      truthy_def objectPrototypeNames_def js_def oneFile_def)

lemma merge_oneFile: "mergeFiles [] oneFile = oneFile" "mergeFiles oneFile oneFile = oneFile"
  by (simp_all add: mergeFiles_def oneFile_def)

lemma finishGeneration_create:
  assumes "engine env = referenceRuntime" "saveError env = None" "freshId env = js ''65a1b2c3d4e5f60718293a4b''"
    "now env = 0" "prompt b = Some (js ''Create a counter'')" "existingFiles b = None"
    "body_uploadedFiles b = None" "body_userId b = None" "isIterativeUpdate b = None"
  shows "finishGeneration env [] b None (JSON_stringify oneFile) =
     Inr (\<lparr>gen_files = oneFile, gen_fullFiles = oneFile,
           gen_changedFiles = [\<lparr>path = js ''/a.js'', status = New, previousContent = None\<rparr>],
           gen_conversationId = js ''65a1b2c3d4e5f60718293a4b''\<rparr>, [(js ''65a1b2c3d4e5f60718293a4b'', createdConversation)])"
proof -
  have k: "keys oneFile = [js ''/a.js'']" by (simp add: oneFile_def keys_def)
  have v: "js ''anonymous'' \<noteq> []" "js ''Create a counter'' \<noteq> []" by (simp_all add: js_def)
  show ?thesis
    using assms v
    by (simp add: finishGeneration_def extract_oneFile previousFilesOf_def merge_oneFile
        detect_oneFile persistTurn_def iterative_def save_def validates_def truthyString_def
        userIdOf_def k createdConversation_def firstTurn_def)
qed

lemma streamTask_read:
  assumes "snd (fetchWithRetry (provider env)) = Inr response"
    and "body response = Some (BodyStream chunks None)"
    and "fold (readChunk (engine env)) chunks ([], []) = (t, progress)"
  shows "streamTask env st b conversation =
     (case finishGeneration env st b conversation t of
        Inl e \<Rightarrow>
          ([StatusEvent (if iterative b then js ''Applying changes...''
                         else js ''Starting generation...'')] @ progress @
           [ErrorEvent (message e)], st)
      | Inr (g, st') \<Rightarrow>
          ([StatusEvent (if iterative b then js ''Applying changes...''
                         else js ''Starting generation...'')] @ progress @
           fileEvents (gen_files g) (gen_changedFiles g) @
           [CompleteEvent (gen_conversationId g) (userIdOf b) (gen_changedFiles g)
              (if iterative b then gen_fullFiles g else gen_files g) (iterative b)], st'))"
  using assms by (auto simp: streamTask_def Let_def split: sum.splits)

lemma POST_streaming_new:
  assumes "mongoError env = None" "truthyString (apiKey env)" "truthyString (prompt b)"
    "isIterativeUpdate b = None" "streaming b = Some True"
  shows "POST env st (Inr b) =
         (EventStream (fst (streamTask env st b None)), snd (streamTask env st b None))"
  using assms
  by (simp add: POST_def requestedConversation_def iterative_def generate_def Let_def)

lemma request_simps:
  "prompt streamingRequest = Some (js ''Create a counter'')" "existingFiles streamingRequest = None"
  "body_uploadedFiles streamingRequest = None" "body_userId streamingRequest = None"
  "isIterativeUpdate streamingRequest = None" "streaming streamingRequest = Some True"
  "truthyString (prompt streamingRequest)" "\<not> iterative streamingRequest"
  "userIdOf streamingRequest = js ''anonymous''"
  by (simp_all add: streamingRequest_def createRequest_def truthyString_def js_def iterative_def
      userIdOf_def)

lemma ok_streams: "ok (streamOf chunks)" "http_status (streamOf chunks) \<noteq> 529"
  "body (streamOf chunks) = Some (BodyStream chunks None)"
  by (simp_all add: streamOf_def ok_def)

text \<open>
  Claim C6, evaluated in streaming mode. The provider streams a text delta and then the
  frame that reports the stop reason \<^verbatim>\<open>max_tokens\<close>. The reading loop looks at
  \<^verbatim>\<open>content_block_delta\<close> frames only, so the task goes on to extract from the cut-off
  text, and the error it sends is the extractor's parse failure, not a truncation
  error. (The non-streaming branch tests \<^verbatim>\<open>stop_reason\<close> before it reads the text:
  \<open>respondOnce_max_tokens\<close>.)
\<close>

theorem streaming_ignores_max_tokens:
  "POST truncatingEnvironment [] (Inr streamingRequest) =
     (EventStream
        [StatusEvent (js ''Starting generation...''),
         ProgressEvent (JString truncatedText),
         ErrorEvent (js ''Failed to parse generated code: Unexpected end of JSON input'')],
      [])"
proof -
  let ?env = "truncatingEnvironment"
  have e: "mongoError ?env = None" "truthyString (apiKey ?env)" "engine ?env = referenceRuntime"
    "provider ?env = answering truncatedStream"
    by (simp_all add: truncatingEnvironment_def readyEnvironment_def truthyString_def js_def)
  have f: "snd (fetchWithRetry (provider ?env)) = Inr truncatedStream"
    unfolding e truncatedStream_def by (simp add: fetchWithRetry_answering ok_streams)
  have b: "body truncatedStream =
      Some (BodyStream [deltaFrame truncatedText @ [10], stopFrame @ [10]] None)"
    by (simp add: truncatedStream_def ok_streams)
  have r: "fold (readChunk (engine ?env)) [deltaFrame truncatedText @ [10], stopFrame @ [10]]
      ([], []) = (truncatedText, [ProgressEvent (JString truncatedText)])"
    unfolding e by (rule read_truncatedStream)
  have g: "finishGeneration ?env [] streamingRequest None truncatedText =
      Inl (Error (js ''Failed to parse generated code: Unexpected end of JSON input''))"
    by (simp add: finishGeneration_def e extract_truncatedText parseFailure_def
        referenceRuntime_def js_def)
  have "streamTask ?env [] streamingRequest None =
      ([StatusEvent (js ''Starting generation...''), ProgressEvent (JString truncatedText),
        ErrorEvent (js ''Failed to parse generated code: Unexpected end of JSON input'')], [])"
    by (simp add: streamTask_read [OF f b r] g request_simps)
  then show ?thesis
    by (simp add: POST_streaming_new [OF e(1,2) request_simps(7,5,6)])
qed

lemma POST_completeStream:
  "POST completingEnvironment [] (Inr streamingRequest) =
     (EventStream completeRun, [(js ''65a1b2c3d4e5f60718293a4b'', createdConversation)])"
proof -
  let ?env = "completingEnvironment"
  have e: "mongoError ?env = None" "truthyString (apiKey ?env)" "engine ?env = referenceRuntime"
    "provider ?env = answering completeStream" "saveError ?env = None"
    "freshId ?env = js ''65a1b2c3d4e5f60718293a4b''" "now ?env = 0"
    by (simp_all add: completingEnvironment_def readyEnvironment_def truthyString_def js_def)
  have f: "snd (fetchWithRetry (provider ?env)) = Inr completeStream"
    unfolding e completeStream_def by (simp add: fetchWithRetry_answering ok_streams)
  have b: "body completeStream =
      Some (BodyStream [deltaFrame (JSON_stringify oneFile) @ [10]] None)"
    by (simp add: completeStream_def ok_streams)
  have r: "fold (readChunk (engine ?env)) [deltaFrame (JSON_stringify oneFile) @ [10]] ([], []) =
      (JSON_stringify oneFile, [ProgressEvent (JString (JSON_stringify oneFile))])"
    unfolding e by (rule read_completeStream)
  note g = finishGeneration_create [OF e(3,5,6,7) request_simps(1,2,3,4,5)]
  have fe: "fileEvents oneFile [\<lparr>path = js ''/a.js'', status = New, previousContent = None\<rparr>] =
      [FileEvent (js ''/a.js'') (js ''1'') New]"
    by (simp add: fileEvents_def oneFile_def)
  have "streamTask ?env [] streamingRequest None =
      (completeRun, [(js ''65a1b2c3d4e5f60718293a4b'', createdConversation)])"
    by (simp add: streamTask_read [OF f b r] g request_simps fe completeRun_def)
  then show ?thesis
    by (simp add: POST_streaming_new [OF e(1,2) request_simps(7,5,6)])
qed

lemma POST_failing_save:
  "POST failingSaveEnvironment [] (Inr streamingRequest) = (EventStream failedRun, [])"
proof -
  let ?env = "failingSaveEnvironment"
  have e: "mongoError ?env = None" "truthyString (apiKey ?env)" "engine ?env = referenceRuntime"
    "provider ?env = answering completeStream" "saveError ?env = Some (Error (js ''write failed''))"
    by (simp_all add: failingSaveEnvironment_def completingEnvironment_def readyEnvironment_def
        truthyString_def js_def)
  have f: "snd (fetchWithRetry (provider ?env)) = Inr completeStream"
    unfolding e completeStream_def by (simp add: fetchWithRetry_answering ok_streams)
  have b: "body completeStream =
      Some (BodyStream [deltaFrame (JSON_stringify oneFile) @ [10]] None)"
    by (simp add: completeStream_def ok_streams)
  have r: "fold (readChunk (engine ?env)) [deltaFrame (JSON_stringify oneFile) @ [10]] ([], []) =
      (JSON_stringify oneFile, [ProgressEvent (JString (JSON_stringify oneFile))])"
    unfolding e by (rule read_completeStream)
  have v: "js ''anonymous'' \<noteq> []" "js ''Create a counter'' \<noteq> []" by (simp_all add: js_def)
  have g: "finishGeneration ?env [] streamingRequest None (JSON_stringify oneFile) =
      Inl (Error (js ''write failed''))"
    using v
    by (simp add: finishGeneration_def e extract_oneFile persistTurn_def request_simps save_def
        validates_def truthyString_def)
  have "streamTask ?env [] streamingRequest None = (failedRun, [])"
    by (simp add: streamTask_read [OF f b r] g request_simps failedRun_def)
  then show ?thesis
    by (simp add: POST_streaming_new [OF e(1,2) request_simps(7,5,6)])
qed

theorem streaming_exactly_one_terminal_event_witness:
  "POST completingEnvironment [] (Inr streamingRequest) =
     (EventStream completeRun, [(js ''65a1b2c3d4e5f60718293a4b'', createdConversation)]) \<and>
   length (filter isTerminal completeRun) = 1 \<and> isTerminal (last completeRun) \<and>
   CompleteEvent (js ''65a1b2c3d4e5f60718293a4b'') (js ''anonymous'')
     [\<lparr>path = js ''/a.js'', status = New, previousContent = None\<rparr>] oneFile False
     \<in> set completeRun \<and>
   (\<forall>m. ErrorEvent m \<notin> set completeRun) \<and> staged completingEnvironment \<and>
   saveError completingEnvironment = None \<and>
   (\<exists>c. map_of [(js ''65a1b2c3d4e5f60718293a4b'', createdConversation)] (js ''65a1b2c3d4e5f60718293a4b'') = Some c \<and> validates c \<and>
        mirrors c) \<and>
   POST failingSaveEnvironment [] (Inr streamingRequest) = (EventStream failedRun, []) \<and>
   saveError failingSaveEnvironment \<noteq> None \<and> (\<exists>m. last failedRun = ErrorEvent m) \<and>
   (\<forall>ident u changes full it. CompleteEvent ident u changes full it \<notin> set failedRun)"
proof -
  have m: "CompleteEvent (js ''65a1b2c3d4e5f60718293a4b'') (js ''anonymous'')
     [\<lparr>path = js ''/a.js'', status = New, previousContent = None\<rparr>] oneFile False
     \<in> set completeRun"
    by (simp add: completeRun_def)
  have s: "saveError failingSaveEnvironment \<noteq> None"
    by (simp add: failingSaveEnvironment_def)
  from streaming_exactly_one_terminal_event [OF POST_completeStream]
    streaming_exactly_one_terminal_event [OF POST_failing_save]
    POST_completeStream POST_failing_save m s
  show ?thesis by blast
qed

lemma respondOnce_text:
  assumes "snd (fetchWithRetry (provider env)) = Inr response"
    and "json response = Inr data" "stop_reason data \<noteq> Some (js ''max_tokens'')"
    and "content data = t # ts" "t \<noteq> []"
  shows "respondOnce env st b conversation =
     (case finishGeneration env st b conversation t of
        Inl e \<Rightarrow> serverError e st
      | Inr (g, st') \<Rightarrow> (JsonResponse 200 (GeneratedBody g (userIdOf b) (iterative b)), st'))"
proof -
  from assms(5) obtain c cs where "t = c # cs" by (cases t) simp_all
  with assms(1-4) show ?thesis
    by (simp add: respondOnce_def)
qed

lemma respondOnce_max_tokens:
  assumes "snd (fetchWithRetry (provider env)) = Inr response"
    and "json response = Inr data" "stop_reason data = Some (js ''max_tokens'')"
  shows "respondOnce env st b conversation =
     (JsonResponse 500
        (ErrorBody (js ''Response truncated: Increase max_tokens or simplify prompt'')), st)"
  using assms by (simp add: respondOnce_def serverError_def)

lemma extract_secondFile: "extractAndParseJSON rt (JSON_stringify secondFile) = Inr secondFile"
proof (rule extractAndParseJSON_bare)
  have "JSON_stringify secondFile = [123, 34, 47, 98, 46, 106, 115, 34, 58, 34, 50, 34, 125]"
    by (simp add: secondFile_def JSON_stringify_def quoteJSONString_def escapeUnit_def js_def
        isLeadSurrogate_def isTrailSurrogate_def)
  then show "indexOf fence (JSON_stringify secondFile) = None"
    by (simp add: fence_eq)
qed (simp_all add: secondFile_def keys_def js_def)

lemma POST_create:
  "snd (POST answeringEnvironment [] (Inr createRequest)) = [(js ''65a1b2c3d4e5f60718293a4b'', createdConversation)]"
proof -
  let ?env = "answeringEnvironment"
  have e: "mongoError ?env = None" "truthyString (apiKey ?env)" "engine ?env = referenceRuntime"
    "provider ?env = answering completeAnswer" "saveError ?env = None"
    "freshId ?env = js ''65a1b2c3d4e5f60718293a4b''" "now ?env = 0"
    by (simp_all add: answeringEnvironment_def readyEnvironment_def truthyString_def js_def)
  have q: "prompt createRequest = Some (js ''Create a counter'')" "existingFiles createRequest = None"
    "body_uploadedFiles createRequest = None" "body_userId createRequest = None"
    "isIterativeUpdate createRequest = None" "streaming createRequest = None"
    by (simp_all add: createRequest_def)
  have f: "snd (fetchWithRetry (provider ?env)) = Inr completeAnswer"
    unfolding e by (simp add: fetchWithRetry_answering completeAnswer_def ok_def)
  have j: "json completeAnswer =
      Inr \<lparr>content = [JSON_stringify oneFile], stop_reason = Some (js ''end_turn'')\<rparr>"
    by (simp add: completeAnswer_def)
  have ne: "JSON_stringify oneFile \<noteq> []" by (simp add: JSON_stringify_members)
  have r: "respondOnce ?env [] createRequest None =
      (case finishGeneration ?env [] createRequest None (JSON_stringify oneFile) of
         Inl e \<Rightarrow> serverError e []
       | Inr (g, st') \<Rightarrow>
           (JsonResponse 200 (GeneratedBody g (userIdOf createRequest) (iterative createRequest)),
            st'))"
    by (rule respondOnce_text [OF f j _ _ ne]) (simp_all add: js_def)
  note g = finishGeneration_create [OF e(3,5,6,7) q(1,2,3,4,5)]
  have "POST ?env [] (Inr createRequest) = respondOnce ?env [] createRequest None"
    using e(1,2) q
    by (simp add: POST_def requestedConversation_def iterative_def generate_def truthyString_def
        js_def)
  then show ?thesis by (simp add: r g)
qed

lemma POST_update:
  "snd (POST updatingEnvironment [(js ''65a1b2c3d4e5f60718293a4b'', createdConversation)] (Inr updateRequest)) =
   [(js ''65a1b2c3d4e5f60718293a4b'', updatedConversation)]"
proof -
  let ?env = "updatingEnvironment" and ?st = "[(js ''65a1b2c3d4e5f60718293a4b'', createdConversation)]"
  have e: "mongoError ?env = None" "truthyString (apiKey ?env)" "engine ?env = referenceRuntime"
    "provider ?env = answering updateAnswer" "saveError ?env = None"
    "now ?env = 0" "findByIdError ?env (js ''65a1b2c3d4e5f60718293a4b'') = None"
    by (simp_all add: updatingEnvironment_def readyEnvironment_def truthyString_def js_def
        castObjectId_def isObjectIdString_def hexValue_def)
  have q: "prompt updateRequest = Some (js ''Rename the file'')" "existingFiles updateRequest = None"
    "body_uploadedFiles updateRequest = None" "body_userId updateRequest = None"
    "isIterativeUpdate updateRequest = Some True" "streaming updateRequest = None"
    "body_conversationId updateRequest = Some (js ''65a1b2c3d4e5f60718293a4b'')"
    by (simp_all add: updateRequest_def)
  have f: "snd (fetchWithRetry (provider ?env)) = Inr updateAnswer"
    unfolding e by (simp add: fetchWithRetry_answering updateAnswer_def ok_def)
  have j: "json updateAnswer =
      Inr \<lparr>content = [JSON_stringify secondFile], stop_reason = Some (js ''end_turn'')\<rparr>"
    by (simp add: updateAnswer_def)
  have ne: "JSON_stringify secondFile \<noteq> []" by (simp add: JSON_stringify_members)
  let ?conv = "Some (js ''65a1b2c3d4e5f60718293a4b'', createdConversation)"
  have r: "respondOnce ?env ?st updateRequest ?conv =
      (case finishGeneration ?env ?st updateRequest ?conv (JSON_stringify secondFile) of
         Inl e \<Rightarrow> serverError e ?st
       | Inr (g, st') \<Rightarrow>
           (JsonResponse 200 (GeneratedBody g (userIdOf updateRequest) (iterative updateRequest)),
            st'))"
    by (rule respondOnce_text [OF f j _ _ ne]) (simp_all add: js_def)
  have d: "detectFileChanges oneFile secondFile =
      [\<lparr>path = js ''/a.js'', status = Deleted, previousContent = Some (Str (js ''1''))\<rparr>,
       \<lparr>path = js ''/b.js'', status = New, previousContent = None\<rparr>]"
    by (simp add: detectFileChanges_def allPaths_def keys_def classifyPath_def getProp_def
        truthy_def objectPrototypeNames_def js_def oneFile_def secondFile_def)
  have mg: "mergeFiles oneFile secondFile = oneFile @ secondFile"
    by (simp add: mergeFiles_def oneFile_def secondFile_def js_def)
  have v: "js ''anonymous'' \<noteq> []" "js ''Create a counter'' \<noteq> []" "js ''Rename the file'' \<noteq> []"
    by (simp_all add: js_def)
  have g: "finishGeneration ?env ?st updateRequest ?conv (JSON_stringify secondFile) =
      Inr (\<lparr>gen_files = secondFile, gen_fullFiles = oneFile @ secondFile,
            gen_changedFiles =
              [\<lparr>path = js ''/a.js'', status = Deleted,
                previousContent = Some (Str (js ''1''))\<rparr>,
               \<lparr>path = js ''/b.js'', status = New, previousContent = None\<rparr>],
            gen_conversationId = js ''65a1b2c3d4e5f60718293a4b''\<rparr>, [(js ''65a1b2c3d4e5f60718293a4b'', updatedConversation)])"
    using v
    by (simp add: finishGeneration_def e extract_secondFile previousFilesOf_def q mg d
        persistTurn_def iterative_def save_def validates_def truthyString_def Let_def
        createdConversation_def firstTurn_def updatedConversation_def secondTurn_def)
  have "POST ?env ?st (Inr updateRequest) = respondOnce ?env ?st updateRequest ?conv"
    using e(1,2,7) q v
    by (simp add: POST_def requestedConversation_def iterative_def generate_def truthyString_def
        js_def)
  then show ?thesis by (simp add: r g)
qed

theorem currentFiles_mirrors_appended_turn_witness:
  "(js ''65a1b2c3d4e5f60718293a4b'', createdConversation) \<in> set (serve [(answeringEnvironment, Inr createRequest)] []) \<and>
   conversationTurns createdConversation \<noteq> [] \<and>
   currentFiles createdConversation = fullState (last (conversationTurns createdConversation)) \<and>
   snd (POST updatingEnvironment [(js ''65a1b2c3d4e5f60718293a4b'', createdConversation)] (Inr updateRequest)) =
     setProp [(js ''65a1b2c3d4e5f60718293a4b'', createdConversation)] (js ''65a1b2c3d4e5f60718293a4b'') updatedConversation \<and>
   map_of [(js ''65a1b2c3d4e5f60718293a4b'', createdConversation)] (js ''65a1b2c3d4e5f60718293a4b'') = Some createdConversation \<and>
   conversationTurns updatedConversation = conversationTurns createdConversation @ [secondTurn] \<and>
   currentFiles updatedConversation = fullState secondTurn"
proof -
  have s: "serve [(answeringEnvironment, Inr createRequest)] [] = [(js ''65a1b2c3d4e5f60718293a4b'', createdConversation)]"
    by (simp add: serve_def POST_create)
  from currentFiles_mirrors_appended_turn [of "[(answeringEnvironment, Inr createRequest)]"
      updatingEnvironment "[(js ''65a1b2c3d4e5f60718293a4b'', createdConversation)]" "Inr updateRequest"]
  have "storeMirrors [(js ''65a1b2c3d4e5f60718293a4b'', createdConversation)]"
    unfolding s by simp
  then have "mirrors createdConversation"
    by (simp add: storeMirrors_def)
  then have 1: "conversationTurns createdConversation \<noteq> [] \<and>
      currentFiles createdConversation = fullState (last (conversationTurns createdConversation))"
    by (simp add: mirrors_def)
  have 2: "snd (POST updatingEnvironment [(js ''65a1b2c3d4e5f60718293a4b'', createdConversation)] (Inr updateRequest)) =
     setProp [(js ''65a1b2c3d4e5f60718293a4b'', createdConversation)] (js ''65a1b2c3d4e5f60718293a4b'') updatedConversation"
    by (simp add: POST_update)
  have 3: "conversationTurns updatedConversation =
      conversationTurns createdConversation @ [secondTurn]"
    "currentFiles updatedConversation = fullState secondTurn"
    by (simp_all add: updatedConversation_def secondTurn_def createdConversation_def)
  from 1 2 3 show ?thesis by (simp add: s)
qed

end
